theory Spec2Isabelle
  imports Complex_Main
begin

section \<open>The Floquet evolution engine of floq (floq/core/evolution.py)\<close>

text \<open>
  Arrays of numpy are lists: a vector is a list of complex numbers, a matrix a list of
  rows, a three-dimensional array a list of matrices. Floating-point numbers are read as
  real and complex numbers: rounding error, infinities and NaN are outside this model.
  Every exception that the source can raise on the paths studied here is a value of the
  type \<open>error\<close>; a function that can raise returns \<open>error + 'a\<close>, with \<open>Inl\<close> the
  exception.
\<close>

type_synonym vec = "complex list"
type_synonym matrix = "complex list list"
type_synonym tensor3 = "complex list list list"

datatype error =
    IndexError
  | ValueError
  | RuntimeError
  | AttributeError
  | ZeroDivisionError
  | SolverError

subsection \<open>numpy primitives used by the source\<close>

text \<open>
  \<open>xs[st:en]\<close> for bounds that are not negative: the slice is cut at the end of the
  array and is empty when \<open>en \<le> st\<close>.
\<close>

definition py_slice :: "'a list \<Rightarrow> nat \<Rightarrow> nat \<Rightarrow> 'a list" where
  "py_slice xs st en = take (en - st) (drop st xs)"

text \<open>
  \<open>ar.argsort(kind='mergesort')\<close>: the indices of \<open>ar\<close> in ascending order of their
  values, equal values in their order of appearance.
\<close>

definition argsort :: "real list \<Rightarrow> nat list" where
  "argsort ar = sort_key (\<lambda>i. ar ! i) [0..<length ar]"

text \<open>
  \<open>np.unique(ar, return_index=True)\<close>, as numpy computes it: sort with a stable
  argsort, mark each position of the sorted array whose value differs from the one
  before it, and return the marked values with the indices they came from.
\<close>

definition np_unique_index :: "real list \<Rightarrow> real list \<times> nat list" where
  "np_unique_index ar =
     (let perm = argsort ar;
          aux = map (\<lambda>i. ar ! i) perm;
          mask = map (\<lambda>k. k = 0 \<or> aux ! k \<noteq> aux ! (k - 1)) [0..<length aux]
      in (map fst (filter snd (zip aux mask)), map fst (filter snd (zip perm mask))))"

text \<open>
  \<open>np.split(ary, sections)\<close> with a list of split points: the slices between
  consecutive points of \<open>[0] + sections + [len(ary)]\<close>.
\<close>

definition np_split :: "'a list \<Rightarrow> nat list \<Rightarrow> 'a list list" where
  "np_split ary sections =
     (let div_points = [0] @ sections @ [length ary]
      in map (\<lambda>i. py_slice ary (div_points ! i) (div_points ! (i + 1)))
             [0..<length sections + 1])"

subsection \<open>find_duplicates\<close>

text \<open>
  \<^verbatim>\<open>
  indices = np.arange(array.shape[0])
  _, start_indices = np.unique(array, return_index=True)
  return filter(lambda x: x.size > 1, np.split(indices, start_indices[1:]))
  \<close>
\<close>

definition find_duplicates :: "real list \<Rightarrow> nat list list" where
  "find_duplicates array =
     (let indices = [0..<length array];
          start_indices = snd (np_unique_index array)
      in filter (\<lambda>x. length x > 1) (np_split indices (drop 1 start_indices)))"

text \<open>
  A maximal run of equal values: the positions \<open>a, \<dots>, b - 1\<close> hold one value, the
  position before \<open>a\<close> (if any) and the position \<open>b\<close> (if any) hold another.
\<close>

definition maximal_run :: "real list \<Rightarrow> nat \<Rightarrow> nat \<Rightarrow> bool" where
  "maximal_run ar a b \<longleftrightarrow>
     a < b \<and> b \<le> length ar \<and>
     (\<forall>k. a \<le> k \<and> k < b \<longrightarrow> ar ! k = ar ! a) \<and>
     (a = 0 \<or> ar ! (a - 1) \<noteq> ar ! a) \<and>
     (b = length ar \<or> ar ! b \<noteq> ar ! a)"

text \<open>
  The boundaries of the runs of \<open>ar\<close>: every position whose value differs from the one
  before it, and the length of the array. A device of the proofs about
  \<open>find_duplicates\<close>, not a function of the source.
\<close>

definition run_bounds :: "real list \<Rightarrow> nat list" where
  "run_bounds ar = filter (\<lambda>k. k = 0 \<or> ar ! k \<noteq> ar ! (k - 1)) [0..<length ar] @ [length ar]"


subsection \<open>Python indexing and slicing\<close>

text \<open>
  \<open>xs[i]\<close> with a signed index: an index from \<open>-len(xs)\<close> to \<open>-1\<close> counts from the
  end, an index outside \<open>-len(xs) \<dots> len(xs) - 1\<close> raises \<open>IndexError\<close>.
\<close>

definition py_get :: "'a list \<Rightarrow> int \<Rightarrow> error + 'a" where
  "py_get xs i =
     (if 0 \<le> i \<and> i < int (length xs) then Inr (xs ! nat i)
      else if - int (length xs) \<le> i \<and> i < 0 then Inr (xs ! nat (int (length xs) + i))
      else Inl IndexError)"

text \<open>
  A signed slice bound on an array of length \<open>n\<close>: a negative bound counts from the end,
  and every bound is cut to \<open>0 \<dots> n\<close>.
\<close>

definition slice_bound :: "nat \<Rightarrow> int \<Rightarrow> nat" where
  "slice_bound n i = (if i < 0 then nat (int n + i) else min (nat i) n)"

text \<open>\<open>xs[i:]\<close>, \<open>xs[:i]\<close> and \<open>xs[i:j]\<close> for signed bounds.\<close>

definition slice_from :: "'a list \<Rightarrow> int \<Rightarrow> 'a list" where
  "slice_from xs i = drop (slice_bound (length xs) i) xs"

definition slice_to :: "'a list \<Rightarrow> int \<Rightarrow> 'a list" where
  "slice_to xs i = take (slice_bound (length xs) i) xs"

definition slice_between :: "'a list \<Rightarrow> int \<Rightarrow> int \<Rightarrow> 'a list" where
  "slice_between xs i j =
     py_slice xs (slice_bound (length xs) i) (slice_bound (length xs) j)"

text \<open>
  \<open>out[:i] = rhs\<close> and \<open>out[i:] = rhs\<close> along the first axis: the right-hand side must
  have as many entries as the slice, or a single entry, which is then repeated
  (broadcasting); anything else raises \<open>ValueError\<close>.
\<close>

definition assign_to :: "'a list \<Rightarrow> int \<Rightarrow> 'a list \<Rightarrow> error + 'a list" where
  "assign_to out i rhs =
     (let k = slice_bound (length out) i
      in if length rhs = k then Inr (rhs @ drop k out)
         else if length rhs = 1 then Inr (replicate k (hd rhs) @ drop k out)
         else Inl ValueError)"

definition assign_from :: "'a list \<Rightarrow> int \<Rightarrow> 'a list \<Rightarrow> error + 'a list" where
  "assign_from out i rhs =
     (let k = slice_bound (length out) i; m = length out - k
      in if length rhs = m then Inr (take k out @ rhs)
         else if length rhs = 1 then Inr (take k out @ replicate m (hd rhs))
         else Inl ValueError)"

text \<open>A \<open>for\<close> loop over a list whose body may raise: the first exception ends it.\<close>

fun fold_err :: "('a \<Rightarrow> 's \<Rightarrow> error + 's) \<Rightarrow> 'a list \<Rightarrow> 's \<Rightarrow> error + 's" where
  "fold_err f [] s = Inr s"
| "fold_err f (x # xs) s = (case f x s of Inl e \<Rightarrow> Inl e | Inr s' \<Rightarrow> fold_err f xs s')"

text \<open>
  The second and third extent of a three-dimensional array and the second extent of a
  matrix. A list does not record the inner extents of an array whose first axis is empty;
  they are read as 0.
\<close>

definition shape1 :: "'a list list \<Rightarrow> nat" where
  "shape1 t = (case t of [] \<Rightarrow> 0 | m # _ \<Rightarrow> length m)"

definition shape2 :: "'a list list list \<Rightarrow> nat" where
  "shape2 t = (case t of [] \<Rightarrow> 0 | m # _ \<Rightarrow> shape1 m)"

text \<open>Element assignment \<open>m[i, j] = v\<close>, \<open>t[d, i, j] = v\<close> and row assignment \<open>t[d, i] = row\<close>.\<close>

definition set2 :: "'a list list \<Rightarrow> nat \<Rightarrow> nat \<Rightarrow> 'a \<Rightarrow> 'a list list" where
  "set2 m i j v = m[i := (m ! i)[j := v]]"

definition set3 :: "'a list list list \<Rightarrow> nat \<Rightarrow> nat \<Rightarrow> nat \<Rightarrow> 'a \<Rightarrow> 'a list list list" where
  "set3 t d i j v = t[d := set2 (t ! d) i j v]"

definition set_row3 :: "'a list list list \<Rightarrow> nat \<Rightarrow> nat \<Rightarrow> 'a list \<Rightarrow> 'a list list list" where
  "set_row3 t d i row = t[d := (t ! d)[i := row]]"

text \<open>
  \<open>np.roll(xs, shift, axis=0)\<close>: the entry at position \<open>i\<close> moves to position
  \<open>(i + shift) mod len(xs)\<close>.
\<close>

definition np_roll :: "'a list \<Rightarrow> int \<Rightarrow> 'a list" where
  "np_roll xs shift =
     map (\<lambda>i. xs ! nat ((int i - shift) mod int (length xs))) [0..<length xs]"

text \<open>\<open>np.conj\<close> on a matrix.\<close>

definition conj_rows :: "matrix \<Rightarrow> matrix" where
  "conj_rows m = map (map cnj) m"

subsection \<open>conjugate_rotate_into\<close>

text \<open>
  \<^verbatim>\<open>
  if amount < 0:
      out[:amount] = np.conj(input[abs(amount):])
      out[amount:] = np.conj(input[:abs(amount)])
  elif amount > 0:
      out[amount:] = np.conj(input[:-amount])
      out[:amount] = np.conj(input[-amount:])
  else:
      out[:] = np.conj(input)
  \<close>
  The function writes into \<open>out\<close>; the model returns the new content of \<open>out\<close>. Both
  arrays are sequences of Fourier blocks (rows of one common width).
\<close>

definition conjugate_rotate_into :: "matrix \<Rightarrow> matrix \<Rightarrow> int \<Rightarrow> error + matrix" where
  "conjugate_rotate_into out input amount =
     (if amount < 0 then
        (case assign_to out amount (conj_rows (slice_from input (abs amount))) of
           Inl e \<Rightarrow> Inl e
         | Inr out1 \<Rightarrow> assign_from out1 amount (conj_rows (slice_to input (abs amount))))
      else if amount > 0 then
        (case assign_from out amount (conj_rows (slice_to input (- amount))) of
           Inl e \<Rightarrow> Inl e
         | Inr out1 \<Rightarrow> assign_to out1 amount (conj_rows (slice_from input (- amount))))
      else assign_from out 0 (conj_rows input))"

subsection \<open>The eigensystem bundle\<close>

text \<open>
  The named tuple \<open>Eigensystem\<close>. \<open>k_eigenvectors\<close> has the shape
  \<open>(dimension, n_zones, dimension)\<close>; \<open>k_derivatives\<close> is \<open>None\<close> when the bundle was built
  without the derivatives of the Hamiltonian.
\<close>

record Eigensystem =
  frequency :: real
  quasienergies :: "real list"
  k_eigenvectors :: tensor3
  initial_floquet_bras :: matrix
  abstract_ket_coefficients :: vec
  k_derivatives :: "tensor3 option"

subsection \<open>current_floquet_kets\<close>

text \<open>
  \<^verbatim>\<open>
  weights = np.exp(time * eigensystem.abstract_ket_coefficients)
  weights = weights.reshape((1, -1, 1))
  return np.sum(weights * eigensystem.k_eigenvectors, axis=1)
  \<close>
  The product broadcasts the weights along the Fourier-mode axis: the number of weights
  and the number of Fourier blocks must agree unless one of them is 1, otherwise numpy
  raises \<open>ValueError\<close>.
\<close>

definition sum_blocks :: "nat \<Rightarrow> matrix \<Rightarrow> vec" where
  "sum_blocks width blocks = map (\<lambda>a. sum_list (map (\<lambda>blk. blk ! a) blocks)) [0..<width]"

definition scale_blocks :: "vec \<Rightarrow> matrix \<Rightarrow> matrix" where
  "scale_blocks weights blocks =
     (if length weights = length blocks then map2 (\<lambda>w blk. map (\<lambda>x. w * x) blk) weights blocks
      else if length weights = 1 then map (\<lambda>blk. map (\<lambda>x. hd weights * x) blk) blocks
      else map (\<lambda>w. map (\<lambda>x. w * x) (hd blocks)) weights)"

definition current_floquet_kets :: "Eigensystem \<Rightarrow> real \<Rightarrow> error + matrix" where
  "current_floquet_kets es time =
     (let weights = map (\<lambda>c. exp (of_real time * c)) (abstract_ket_coefficients es);
          n_zones = shape1 (k_eigenvectors es);
          dimension = shape2 (k_eigenvectors es)
      in if length weights = n_zones \<or> length weights = 1 \<or> n_zones = 1
         then Inr (map (\<lambda>blocks. sum_blocks dimension (scale_blocks weights blocks))
                       (k_eigenvectors es))
         else Inl ValueError)"

subsection \<open>integral_factors\<close>

text \<open>
  The function is compiled by numba, whose default error model raises
  \<open>ZeroDivisionError\<close> on a scalar division by zero: the division in the loop over the
  pairs \<open>j < i\<close> of the zero-difference plane. The divisions of whole arrays in the two
  later loops follow numpy and do not raise. numba does not check array bounds; the bundle
  is taken to be well shaped (\<open>quasienergies\<close> has \<open>dimension\<close> entries, \<open>n_zones \<ge> 1\<close>), the
  theorems say so.
  \<^verbatim>\<open>
  diag = -1j * time * energy_phases
  for i in range(energies.shape[0]):
      out[n_zones - 1, i, i] = diag[i]
  for i in range(energies.shape[0]):
      for j in range(i):
          value = (energy_phases[i] - energy_phases[j]) / (energies[i] - energies[j])
          out[n_zones - 1, i, j] = out[n_zones - 1, j, i] = value
  for diff_index in range(n_zones - 1):
      separation = frequency * differences[diff_index]
      exponential = diff_exponentials[diff_index]
      for i in range(energies.shape[0]):
          numer = energy_phases[i] - energy_phases*exponential
          denom = energies[i] + separation - energies
          out[diff_index, i] = numer / denom
  for diff_index in range(n_zones, differences.shape[0]):
      (the same body)
  return out
  \<close>
\<close>

definition fill_difference ::
  "real list \<Rightarrow> vec \<Rightarrow> real \<Rightarrow> real list \<Rightarrow> vec \<Rightarrow> nat \<Rightarrow> tensor3 \<Rightarrow> tensor3" where
  "fill_difference energies energy_phases freq differences diff_exponentials diff_index out =
     (let separation = freq * differences ! diff_index;
          exponential = diff_exponentials ! diff_index
      in fold (\<lambda>i out.
           let numer = map (\<lambda>p. energy_phases ! i - p * exponential) energy_phases;
               denom = map (\<lambda>e. energies ! i + separation - e) energies
           in set_row3 out diff_index i (map2 (\<lambda>n d. n / of_real d) numer denom))
         [0..<length energies] out)"

definition integral_factors :: "Eigensystem \<Rightarrow> real \<Rightarrow> error + tensor3" where
  "integral_factors es time =
     (let n_zones = shape1 (k_eigenvectors es);
          dimension = shape2 (k_eigenvectors es);
          energies = quasienergies es;
          freq = frequency es;
          energy_phases = map (\<lambda>e. exp (- \<i> * of_real time * of_real e)) energies;
          differences = map (\<lambda>k. 1 - real n_zones + real k) [0..<2 * n_zones - 1];
          diff_exponentials =
            map (\<lambda>d. exp (\<i> * of_real time * of_real freq * of_real d)) differences;
          out0 = replicate (length differences) (replicate dimension (replicate dimension 0));
          diag = map (\<lambda>p. - \<i> * of_real time * p) energy_phases;
          out1 = fold (\<lambda>i out. set3 out (n_zones - 1) i i (diag ! i)) [0..<length energies] out0
      in case fold_err (\<lambda>i. fold_err (\<lambda>j out.
                if energies ! i - energies ! j = 0 then Inl ZeroDivisionError
                else let value = (energy_phases ! i - energy_phases ! j)
                                  / of_real (energies ! i - energies ! j)
                     in Inr (set3 (set3 out (n_zones - 1) i j value) (n_zones - 1) j i value))
              [0..<i]) [0..<length energies] out1 of
           Inl e \<Rightarrow> Inl e
         | Inr out2 \<Rightarrow>
             let out3 = fold (fill_difference energies energy_phases freq differences
                               diff_exponentials) [0..<n_zones - 1] out2
             in Inr (fold (fill_difference energies energy_phases freq differences
                            diff_exponentials) [n_zones..<length differences] out3))"

subsection \<open>combined_factors\<close>

text \<open>
  \<^verbatim>\<open>
  n_parameters = eigensystem.k_derivatives.shape[0]
  ...
  integral_terms = integral_factors(eigensystem, time)
  for diff_index, diff in enumerate(range(1 - n_zones, n_zones)):
      for i in range(dimension):
          conjugate_rotate_into(rolled_k_eigenbra, k_eigenkets[i], diff)
          for j in range(dimension):
              for parameter in range(n_parameters):
                  expectation = rolled_k_eigenbra.ravel()\
                                @ eigensystem.k_derivatives[parameter]\
                                @ k_eigenkets[j].ravel()
                  factors[diff_index, i, j, parameter] =\
                      integral_terms[diff_index, i, j] * expectation
  return factors
  \<close>
  Reading \<open>.shape\<close> of \<open>None\<close> raises: a bundle without \<open>k_derivatives\<close> ends the call
  at its first statement. The state of the loops is the scratch buffer
  \<open>rolled_k_eigenbra\<close> and the result \<open>factors\<close> (allocated with \<open>np.empty\<close>; every
  entry is written before it is read, the model starts it at 0).
\<close>

definition vec_mat :: "vec \<Rightarrow> matrix \<Rightarrow> vec" where
  "vec_mat v m = map (\<lambda>c. sum_list (map2 (\<lambda>x row. x * row ! c) v m)) [0..<shape1 m]"

definition dot :: "vec \<Rightarrow> vec \<Rightarrow> complex" where
  "dot u w = sum_list (map2 (\<lambda>x y. x * y) u w)"

definition set4 ::
  "'a list list list list \<Rightarrow> nat \<Rightarrow> nat \<Rightarrow> nat \<Rightarrow> nat \<Rightarrow> 'a \<Rightarrow> 'a list list list list" where
  "set4 t d i j p v = t[d := set3 (t ! d) i j p v]"

definition combined_factors :: "Eigensystem \<Rightarrow> real \<Rightarrow> error + complex list list list list" where
  "combined_factors es time =
     (case k_derivatives es of
        None \<Rightarrow> Inl AttributeError
      | Some dk \<Rightarrow>
          let n_parameters = length dk;
              n_zones = shape1 (k_eigenvectors es);
              dimension = shape2 (k_eigenvectors es);
              factors0 = replicate (2 * n_zones - 1)
                           (replicate dimension (replicate dimension (replicate n_parameters 0)));
              rolled0 = replicate n_zones (replicate dimension 0);
              k_eigenkets = k_eigenvectors es
          in case integral_factors es time of
               Inl e \<Rightarrow> Inl e
             | Inr integral_terms \<Rightarrow>
                 (case fold_err (\<lambda>diff_index. fold_err (\<lambda>i (rolled, factors).
                          case conjugate_rotate_into rolled (k_eigenkets ! i)
                                 (1 - int n_zones + int diff_index) of
                            Inl e \<Rightarrow> Inl e
                          | Inr rolled' \<Rightarrow>
                              Inr (rolled',
                                fold (\<lambda>j. fold (\<lambda>parameter factors.
                                    let expectation =
                                          dot (vec_mat (concat rolled') (dk ! parameter))
                                              (concat (k_eigenkets ! j))
                                    in set4 factors diff_index i j parameter
                                         (integral_terms ! diff_index ! i ! j * expectation))
                                  [0..<n_parameters]) [0..<dimension] factors))
                        [0..<dimension]) [0..<2 * n_zones - 1] (rolled0, factors0) of
                    Inl e \<Rightarrow> Inl e
                  | Inr (rolled, factors) \<Rightarrow> Inr factors))"

subsection \<open>du_dcontrols\<close>

text \<open>
  \<^verbatim>\<open>
  n_parameters = eigensystem.k_derivatives.shape[0]
  n_zones, dimension = eigensystem.k_eigenvectors.shape[1:3]
  out = np.zeros((n_parameters, dimension, dimension), dtype=np.complex128)
  if n_parameters == 0:
      return out
  factors = combined_factors(eigensystem, time)
  current_kets = current_floquet_kets(eigensystem, time)
  k_eigenbras = np.conj(eigensystem.k_eigenvectors)
  projector = np.empty((1, dimension, dimension), dtype=np.complex128)
  for i in range(dimension):
      for j in range(dimension):
          for zone_i in range(n_zones - 1, -1, -1):
              np.outer(current_kets[i], k_eigenbras[j, zone_i], out=projector)
              for diff_i in range(zone_i, zone_i + n_zones):
                  factor = factors[diff_i, i, j].reshape(n_parameters, 1, 1)
                  out += factor * projector
  return out
  \<close>
\<close>

definition outer :: "vec \<Rightarrow> vec \<Rightarrow> matrix" where
  "outer u w = map (\<lambda>x. map (\<lambda>y. x * y) w) u"

definition add_scaled :: "tensor3 \<Rightarrow> vec \<Rightarrow> matrix \<Rightarrow> tensor3" where
  "add_scaled out factor projector =
     map2 (\<lambda>f plane. map2 (map2 (\<lambda>pr x. x + f * pr)) projector plane) factor out"

definition du_dcontrols :: "Eigensystem \<Rightarrow> real \<Rightarrow> error + tensor3" where
  "du_dcontrols es time =
     (case k_derivatives es of
        None \<Rightarrow> Inl AttributeError
      | Some dk \<Rightarrow>
          let n_parameters = length dk;
              n_zones = shape1 (k_eigenvectors es);
              dimension = shape2 (k_eigenvectors es);
              out = replicate n_parameters (replicate dimension (replicate dimension 0))
          in if n_parameters = 0 then Inr out
             else case combined_factors es time of
               Inl e \<Rightarrow> Inl e
             | Inr factors \<Rightarrow>
                 (case current_floquet_kets es time of
                    Inl e \<Rightarrow> Inl e
                  | Inr current_kets \<Rightarrow>
                      let k_eigenbras = map conj_rows (k_eigenvectors es)
                      in Inr (fold (\<lambda>i. fold (\<lambda>j. fold (\<lambda>zone_i out.
                               let projector = outer (current_kets ! i) (k_eigenbras ! j ! zone_i)
                               in fold (\<lambda>diff_i out.
                                    add_scaled out (factors ! diff_i ! i ! j) projector)
                                  [zone_i..<zone_i + n_zones] out)
                             (rev [0..<n_zones])) [0..<dimension]) [0..<dimension] out)))"

subsection \<open>assemble_k and assemble_dk\<close>

text \<open>
  Modelled from the spec: \<open>linalg.n_to_i\<close> is not among the sources. The Fourier
  components are "indexed from \<open>-max_harmonic\<close> to \<open>+max_harmonic\<close>": the component of
  harmonic \<open>num\<close> among \<open>n\<close> components stands at index \<open>num + (n - 1) / 2\<close>.
\<close>

definition n_to_i :: "int \<Rightarrow> nat \<Rightarrow> int" where
  "n_to_i num n = num + (int n - 1) div 2"

text \<open>
  Modelled from the spec: \<open>linalg.i_to_n\<close> is not among the sources. \<open>harmonic_offset\<close>
  "maps block row index to a signed Brillouin-zone offset centered at zero", \<open>row - 2\<close> for
  five zones.
\<close>

definition i_to_n :: "int \<Rightarrow> nat \<Rightarrow> real" where
  "i_to_n i n = real_of_int i - (real n - 1) / 2"

text \<open>
  Modelled from the spec: \<open>linalg.set_block\<close> is not among the sources. It "places" a
  \<open>dim_block \<times> dim_block\<close> block at the block position \<open>(row, col)\<close> of the matrix: the entry
  \<open>(row \<cdot> dim_block + a, col \<cdot> dim_block + b)\<close> becomes the entry \<open>(a, b)\<close> of the block, every
  other entry stays.
\<close>

definition set_block :: "matrix \<Rightarrow> matrix \<Rightarrow> nat \<Rightarrow> nat \<Rightarrow> nat \<Rightarrow> nat \<Rightarrow> matrix" where
  "set_block block mat dim_block n_block row col =
     map (\<lambda>r. map (\<lambda>c.
            if row * dim_block \<le> r \<and> r < row * dim_block + dim_block \<and>
               col * dim_block \<le> c \<and> c < col * dim_block + dim_block
            then block ! (r - row * dim_block) ! (c - col * dim_block)
            else mat ! r ! c)
          [0..<length (mat ! r)])
       [0..<length mat]"

text \<open>
  \<open>current + np.eye(dim) * omega * offset\<close>. The source's \<open>dim\<close> is written \<open>dimn\<close>
  here and below (\<open>dim\<close> is a constant of the library).
\<close>

definition add_diagonal :: "matrix \<Rightarrow> nat \<Rightarrow> complex \<Rightarrow> matrix" where
  "add_diagonal current dimn c =
     map (\<lambda>a. map (\<lambda>b. current ! a ! b + (if a = b then 1 else 0) * c) [0..<dimn]) [0..<dimn]"

text \<open>
  \<^verbatim>\<open>
  while row <= stop_row and col <= stop_col:
      if n == 0:
          block = current + np.eye(dim) * omega * linalg.i_to_n(row, nz)
          linalg.set_block(block, k, dim, nz, row, col)
      else:
          linalg.set_block(current, k, dim, nz, row, col)
      row = row + 1
      col = col + 1
  \<close>
\<close>

function place_blocks ::
  "int \<Rightarrow> matrix \<Rightarrow> nat \<Rightarrow> nat \<Rightarrow> real \<Rightarrow> int \<Rightarrow> int \<Rightarrow> int \<Rightarrow> int \<Rightarrow> matrix \<Rightarrow> matrix" where
  "place_blocks n current dimn nz omega stop_row stop_col row col k =
     (if row \<le> stop_row \<and> col \<le> stop_col then
        place_blocks n current dimn nz omega stop_row stop_col (row + 1) (col + 1)
          (if n = 0
           then set_block (add_diagonal current dimn (of_real (omega * i_to_n row nz)))
                  k dimn nz (nat row) (nat col)
           else set_block current k dimn nz (nat row) (nat col))
      else k)"
  by pat_completeness auto
termination
  by (relation "measure (\<lambda>(n, current, dimn, nz, omega, stop_row, stop_col, row, col, k).
        nat (stop_row + 1 - row))") auto

text \<open>
  \<^verbatim>\<open>
  nc, dim = hf.shape[0:2]
  k_dim = dim * nz
  hf_max = (nc - 1) // 2
  k = np.zeros((k_dim, k_dim), dtype=np.complex128)
  for n in range(-hf_max, hf_max + 1):
      current = hf[linalg.n_to_i(n, nc)]
      row = max(0, n)  # if n < 0, start at row 0
      col = max(0, -n)  # if n > 0, start at col 0
      stop_row = min(nz - 1 + n, nz - 1)
      stop_col = min(nz - 1 - n, nz - 1)
      (the while loop)
  return k
  \<close>
\<close>

definition assemble_k :: "tensor3 \<Rightarrow> nat \<Rightarrow> real \<Rightarrow> error + matrix" where
  "assemble_k hf nz omega =
     (let nc = length hf;
          dimn = shape1 hf;
          k_dim = dimn * nz;
          hf_max = (int nc - 1) div 2;
          k = replicate k_dim (replicate k_dim 0)
      in fold_err (\<lambda>n k.
           case py_get hf (n_to_i n nc) of
             Inl e \<Rightarrow> Inl e
           | Inr current \<Rightarrow>
               let row = max 0 n;
                   col = max 0 (- n);
                   stop_row = min (int nz - 1 + n) (int nz - 1);
                   stop_col = min (int nz - 1 - n) (int nz - 1)
               in Inr (place_blocks n current dimn nz omega stop_row stop_col row col k))
         [- hf_max..hf_max] k)"

text \<open>
  \<^verbatim>\<open>
  for c in range(npm):
      dk[c, :, :] = assemble_k(dhf[c], nz, 0.0)
  \<close>
\<close>

definition assemble_dk :: "complex list list list list \<Rightarrow> nat \<Rightarrow> error + tensor3" where
  "assemble_dk dhf nz =
     fold_err (\<lambda>c dk. case assemble_k c nz 0 of Inl e \<Rightarrow> Inl e | Inr k \<Rightarrow> Inr (dk @ [k]))
       dhf []"

subsection \<open>first_brillouin_zone\<close>

text \<open>
  \<open>np.searchsorted(a, v, side='left')\<close> and \<open>side='right'\<close> on a sorted array: the number
  of entries below \<open>v\<close>, and the number of entries not above \<open>v\<close>.
\<close>

definition searchsorted_left :: "real list \<Rightarrow> real \<Rightarrow> nat" where
  "searchsorted_left a v = length (takeWhile (\<lambda>x. x < v) a)"

definition searchsorted_right :: "real list \<Rightarrow> real \<Rightarrow> nat" where
  "searchsorted_right a v = length (takeWhile (\<lambda>x. x \<le> v) a)"

text \<open>
  \<^verbatim>\<open>
  while eigenvalues[lower + n_lower_edge] == -edge:
      n_lower_edge += 1
  \<close>
\<close>

function count_lower_edge :: "real list \<Rightarrow> real \<Rightarrow> nat \<Rightarrow> nat \<Rightarrow> error + nat" where
  "count_lower_edge eigenvalues edge lower n_lower_edge =
     (case py_get eigenvalues (int lower + int n_lower_edge) of
        Inl e \<Rightarrow> Inl e
      | Inr v \<Rightarrow>
          if v = - edge then count_lower_edge eigenvalues edge lower (n_lower_edge + 1)
          else Inr n_lower_edge)"
  by pat_completeness auto
termination
  by (relation "measure (\<lambda>(eigenvalues, edge, lower, n_lower_edge).
        length eigenvalues - (lower + n_lower_edge))")
     (auto simp: py_get_def Let_def split: if_splits)

text \<open>
  \<^verbatim>\<open>
  while eigenvalues[upper - n_upper_edge - 1] == edge:
      n_upper_edge += 1
  \<close>
  The index may pass 0: Python then reads from the end of the array.
\<close>

function count_upper_edge :: "real list \<Rightarrow> real \<Rightarrow> nat \<Rightarrow> nat \<Rightarrow> error + nat" where
  "count_upper_edge eigenvalues edge upper n_upper_edge =
     (case py_get eigenvalues (int upper - int n_upper_edge - 1) of
        Inl e \<Rightarrow> Inl e
      | Inr v \<Rightarrow>
          if v = edge then count_upper_edge eigenvalues edge upper (n_upper_edge + 1)
          else Inr n_upper_edge)"
  by pat_completeness auto
termination
  by (relation "measure (\<lambda>(eigenvalues, edge, upper, n_upper_edge).
        nat (int upper - int n_upper_edge + int (length eigenvalues)))")
     (auto simp: py_get_def Let_def split: if_splits)

text \<open>
  \<^verbatim>\<open>
  order = eigenvalues.argsort()
  eigenvalues = eigenvalues[order]
  eigenvectors = eigenvectors[order]
  lower = np.searchsorted(eigenvalues, -edge, side='left')
  upper = np.searchsorted(eigenvalues, edge, side='right')
  n_lower_edge = n_upper_edge = 0
  (the two while loops)
  n_not_on_edge = (upper - n_upper_edge) - (lower + n_lower_edge)
  if n_not_on_edge == n_values:
      lower, upper = lower + n_lower_edge, upper - n_upper_edge
  elif n_not_on_edge + n_lower_edge == n_values:
      lower, upper = lower, upper - n_upper_edge
  elif n_not_on_edge + n_upper_edge == n_values:
      lower, upper = lower + n_lower_edge, upper
  else:
      raise RuntimeError(exception_message)
  return eigenvalues[lower:upper], eigenvectors[lower:upper]
  \<close>
  \<open>argsort\<close> is modelled as a stable sort (numpy does not fix the order of equal values).
  Indexing \<open>eigenvectors\<close> with \<open>order\<close> raises \<open>IndexError\<close> when there are fewer
  eigenvectors than eigenvalues.
\<close>

definition first_brillouin_zone ::
  "real list \<Rightarrow> 'v list \<Rightarrow> nat \<Rightarrow> real \<Rightarrow> error + (real list \<times> 'v list)" where
  "first_brillouin_zone eigenvalues0 eigenvectors0 n_values edge =
     (let order = argsort eigenvalues0;
          eigenvalues = map (\<lambda>i. eigenvalues0 ! i) order
      in if list_ex (\<lambda>i. length eigenvectors0 \<le> i) order then Inl IndexError
         else
           let eigenvectors = map (\<lambda>i. eigenvectors0 ! i) order;
               lower = searchsorted_left eigenvalues (- edge);
               upper = searchsorted_right eigenvalues edge
           in case count_lower_edge eigenvalues edge lower 0 of
                Inl e \<Rightarrow> Inl e
              | Inr n_lower_edge \<Rightarrow>
                  (case count_upper_edge eigenvalues edge upper 0 of
                     Inl e \<Rightarrow> Inl e
                   | Inr n_upper_edge \<Rightarrow>
                       let n_not_on_edge =
                             (int upper - int n_upper_edge) - (int lower + int n_lower_edge)
                       in if n_not_on_edge = int n_values then
                            Inr (slice_between eigenvalues
                                   (int lower + int n_lower_edge) (int upper - int n_upper_edge),
                                 slice_between eigenvectors
                                   (int lower + int n_lower_edge) (int upper - int n_upper_edge))
                          else if n_not_on_edge + int n_lower_edge = int n_values then
                            Inr (slice_between eigenvalues
                                   (int lower) (int upper - int n_upper_edge),
                                 slice_between eigenvectors
                                   (int lower) (int upper - int n_upper_edge))
                          else if n_not_on_edge + int n_upper_edge = int n_values then
                            Inr (slice_between eigenvalues
                                   (int lower + int n_lower_edge) (int upper),
                                 slice_between eigenvectors
                                   (int lower + int n_lower_edge) (int upper))
                          else Inl RuntimeError))"

subsection \<open>diagonalise\<close>

text \<open>
  \<open>np.round(x, decimals)\<close>: scale by the power of ten, round to the nearest integer with
  ties to the even one, scale back.
\<close>

definition rint :: "real \<Rightarrow> int" where
  "rint x =
     (let f = \<lfloor>x\<rfloor>
      in if x - of_int f < 1 / 2 then f
         else if 1 / 2 < x - of_int f then f + 1
         else if even f then f else f + 1)"

definition np_round :: "real \<Rightarrow> int \<Rightarrow> real" where
  "np_round x decimals =
     (if 0 \<le> decimals then of_int (rint (x * 10 ^ nat decimals)) / 10 ^ nat decimals
      else of_int (rint (x / 10 ^ nat (- decimals))) * 10 ^ nat (- decimals))"

text \<open>\<open>np.transpose\<close> of a matrix, and \<open>a.reshape(d0, d1, d2)\<close> of the flattened array.\<close>

definition np_transpose :: "'a list list \<Rightarrow> 'a list list" where
  "np_transpose m = map (\<lambda>c. map (\<lambda>row. row ! c) m) [0..<shape1 m]"

definition reshape3 :: "'a list \<Rightarrow> nat \<Rightarrow> nat \<Rightarrow> nat \<Rightarrow> error + 'a list list list" where
  "reshape3 flat d0 d1 d2 =
     (if length flat = d0 * d1 * d2
      then Inr (map (\<lambda>i. map (\<lambda>j. take d2 (drop ((i * d1 + j) * d2) flat)) [0..<d1]) [0..<d0])
      else Inl ValueError)"

text \<open>
  The Floquet matrix is a dense array or a scipy sparse matrix with the same entries; the
  two eigensolvers are library routines and enter as parameters \<open>eig\<close> (for
  \<open>np.linalg.eig(k)\<close>) and \<open>eigs\<close> (for \<open>scipy.sparse.linalg.eigs(k, k=\<dots>, sigma=0.0)\<close>),
  each returning the eigenvalues and the matrix whose columns are the eigenvectors, or
  raising. \<open>linalg.gram_schmidt\<close> is not among the sources and enters as the parameter
  \<open>gs\<close>.
\<close>

datatype kmatrix = Dense matrix | Sparse matrix

definition kshape0 :: "kmatrix \<Rightarrow> nat" where
  "kshape0 k = (case k of Dense m \<Rightarrow> length m | Sparse m \<Rightarrow> length m)"

text \<open>
  \<open>eigenvectors[degeneracy]\<close> and \<open>eigenvectors[degeneracy] = new\<close> for a list of
  indices: the assignment wants one new row for each index, or a single row for all.
\<close>

definition fancy_get :: "'a list \<Rightarrow> nat list \<Rightarrow> 'a list" where
  "fancy_get rows idxs = map (\<lambda>i. rows ! i) idxs"

definition fancy_set :: "'a list \<Rightarrow> nat list \<Rightarrow> 'a list \<Rightarrow> error + 'a list" where
  "fancy_set rows idxs new =
     (if length new = length idxs then Inr (fold (\<lambda>(i, r) rows. rows[i := r]) (zip idxs new) rows)
      else if length new = 1 then Inr (fold (\<lambda>i rows. rows[i := hd new]) idxs rows)
      else Inl ValueError)"

text \<open>
  \<^verbatim>\<open>
  for degeneracy in find_duplicates(eigenvalues):
      eigenvectors[degeneracy] = linalg.gram_schmidt(eigenvectors[degeneracy])
  \<close>
\<close>

definition orthogonalise ::
  "(matrix \<Rightarrow> matrix) \<Rightarrow> real list \<Rightarrow> matrix \<Rightarrow> error + matrix" where
  "orthogonalise gs eigenvalues eigenvectors =
     fold_err (\<lambda>degeneracy eigenvectors.
         fancy_set eigenvectors degeneracy (gs (fancy_get eigenvectors degeneracy)))
       (find_duplicates eigenvalues) eigenvectors"

text \<open>
  \<^verbatim>\<open>
  if isinstance(k, scipy.sparse.spmatrix):
      eigenvalues, eigenvectors = scipy.sparse.linalg.eigs(k, k=2*h_dimension, sigma=0.0)
  else:
      eigenvalues, eigenvectors = np.linalg.eig(k)
  eigenvalues = np.round(np.real(eigenvalues), decimals=decimals)
  eigenvectors = np.transpose(eigenvectors)
  edge = np.round(0.5 * frequency, decimals=decimals)
  eigenvalues, eigenvectors = first_brillouin_zone(eigenvalues, eigenvectors,
                                                   h_dimension, edge)
  for degeneracy in find_duplicates(eigenvalues):
      eigenvectors[degeneracy] = linalg.gram_schmidt(eigenvectors[degeneracy])
  n_zones = k.shape[0] // h_dimension
  return eigenvalues, eigenvectors.reshape(h_dimension, n_zones, h_dimension)
  \<close>
\<close>

definition diagonalise ::
  "(matrix \<Rightarrow> error + (complex list \<times> matrix)) \<Rightarrow>
   (matrix \<Rightarrow> nat \<Rightarrow> error + (complex list \<times> matrix)) \<Rightarrow>
   (matrix \<Rightarrow> matrix) \<Rightarrow> kmatrix \<Rightarrow> nat \<Rightarrow> real \<Rightarrow> int \<Rightarrow> error + (real list \<times> tensor3)" where
  "diagonalise eig eigs gs k h_dimension freq decimals =
     (case (case k of Sparse m \<Rightarrow> eigs m (2 * h_dimension) | Dense m \<Rightarrow> eig m) of
        Inl e \<Rightarrow> Inl e
      | Inr (eigenvalues0, eigenvectors0) \<Rightarrow>
          let eigenvalues1 = map (\<lambda>z. np_round (Re z) decimals) eigenvalues0;
              eigenvectors1 = np_transpose eigenvectors0;
              edge = np_round (0.5 * freq) decimals
          in case first_brillouin_zone eigenvalues1 eigenvectors1 h_dimension edge of
               Inl e \<Rightarrow> Inl e
             | Inr (eigenvalues, eigenvectors2) \<Rightarrow>
                 (case orthogonalise gs eigenvalues eigenvectors2 of
                    Inl e \<Rightarrow> Inl e
                  | Inr eigenvectors \<Rightarrow>
                      if h_dimension = 0 then Inl ZeroDivisionError
                      else
                        let n_zones = kshape0 k div h_dimension
                        in case reshape3 (concat eigenvectors) h_dimension n_zones h_dimension of
                             Inl e \<Rightarrow> Inl e
                           | Inr shaped \<Rightarrow> Inr (eigenvalues, shaped)))"

subsection \<open>eigensystem\<close>

text \<open>
  \<^verbatim>\<open>
  n_components, dimension = hamiltonian.shape[0:2]
  k = assemble_k(hamiltonian, n_zones, frequency)
  if sparse:
      k = scipy.sparse.csc_matrix(k)
  quasienergies, k_eigenvectors = diagonalise(k, dimension, frequency, decimals)
  initial_floquet_bras = np.conj(np.sum(k_eigenvectors, axis=1))
  fourier_modes = np.arange((1-n_zones)//2, 1 + (n_zones//2))
  abstract_ket_coefficients = 1j * frequency * fourier_modes
  if dhamiltonian is None:
      k_derivatives = None
  else:
      n_parameters = dhamiltonian.shape[0]
      k_derivatives = assemble_dk(dhamiltonian, n_zones)
  return Eigensystem(frequency, quasienergies, k_eigenvectors,
                     initial_floquet_bras, abstract_ket_coefficients,
                     k_derivatives)
  \<close>
\<close>

definition eigensystem ::
  "(matrix \<Rightarrow> error + (complex list \<times> matrix)) \<Rightarrow>
   (matrix \<Rightarrow> nat \<Rightarrow> error + (complex list \<times> matrix)) \<Rightarrow>
   (matrix \<Rightarrow> matrix) \<Rightarrow> tensor3 \<Rightarrow> complex list list list list option \<Rightarrow> nat \<Rightarrow> real \<Rightarrow> int \<Rightarrow>
   bool \<Rightarrow> error + Eigensystem" where
  "eigensystem eig eigs gs hamiltonian dhamiltonian n_zones freq decimals sparse =
     (let dimension = shape1 hamiltonian
      in case assemble_k hamiltonian n_zones freq of
           Inl e \<Rightarrow> Inl e
         | Inr k \<Rightarrow>
             (case diagonalise eig eigs gs (if sparse then Sparse k else Dense k)
                     dimension freq decimals of
                Inl e \<Rightarrow> Inl e
              | Inr (energies, vectors) \<Rightarrow>
                  let bras = conj_rows (map (sum_blocks (shape2 vectors)) vectors);
                      fourier_modes = [(1 - int n_zones) div 2..int n_zones div 2];
                      coefficients = map (\<lambda>m. \<i> * of_real freq * of_int m) fourier_modes
                  in case dhamiltonian of
                       None \<Rightarrow>
                         Inr \<lparr>frequency = freq, quasienergies = energies,
                              k_eigenvectors = vectors, initial_floquet_bras = bras,
                              abstract_ket_coefficients = coefficients, k_derivatives = None\<rparr>
                     | Some dhf \<Rightarrow>
                         (case assemble_dk dhf n_zones of
                            Inl e \<Rightarrow> Inl e
                          | Inr dk \<Rightarrow>
                              Inr \<lparr>frequency = freq, quasienergies = energies,
                                   k_eigenvectors = vectors, initial_floquet_bras = bras,
                                   abstract_ket_coefficients = coefficients,
                                   k_derivatives = Some dk\<rparr>)))"

subsection \<open>Concrete inputs for the worked instances\<close>

text \<open>
  An eigensolver for \<open>1 \<times> 1\<close> matrices (the eigenvalue is the entry, the eigenvector is
  \<open>(1)\<close>), a sparse solver that always fails, and the bundle that \<open>eigensystem\<close> builds
  from the \<open>1 \<times> 1\<close> Hamiltonian \<open>(1/4)\<close> with one zone and frequency 1.
\<close>

definition unit_solver :: "matrix \<Rightarrow> error + (complex list \<times> matrix)" where
  "unit_solver m = Inr ([m ! 0 ! 0], [[1]])"

definition no_sparse_solver :: "matrix \<Rightarrow> nat \<Rightarrow> error + (complex list \<times> matrix)" where
  "no_sparse_solver m k = Inl SolverError"

definition unit_bundle :: Eigensystem where
  "unit_bundle = \<lparr>frequency = 1, quasienergies = [1 / 4], k_eigenvectors = [[[1]]],
     initial_floquet_bras = [[1]], abstract_ket_coefficients = [0], k_derivatives = None\<rparr>"

subsection \<open>Devices of the proofs about assemble_k\<close>

text \<open>
  A square matrix of a given size, and one pass of the loop over the harmonics in
  \<open>assemble_k\<close> for a harmonic whose Fourier component is found.
\<close>

definition square :: "nat \<Rightarrow> 'a list list \<Rightarrow> bool" where
  "square n m \<longleftrightarrow> length m = n \<and> list_all (\<lambda>row. length row = n) m"

definition diagonal_pass :: "tensor3 \<Rightarrow> nat \<Rightarrow> real \<Rightarrow> int \<Rightarrow> matrix \<Rightarrow> matrix" where
  "diagonal_pass hf nz omega n k =
     place_blocks n (hf ! nat (n_to_i n (length hf))) (shape1 hf) nz omega
       (min (int nz - 1 + n) (int nz - 1)) (min (int nz - 1 - n) (int nz - 1))
       (max 0 n) (max 0 (- n)) k"

text \<open>
  The Hamiltonian of the repository's test \<open>TestAssembleK\<close> (two levels, the components
  \<open>-1\<close>, \<open>0\<close> and \<open>1\<close> in every entry) and the matrix the test expects for five zones and
  frequency 1.
\<close>

definition test_hf :: tensor3 where
  "test_hf = [[[- 1, - 1], [- 1, - 1]], [[0, 0], [0, 0]], [[1, 1], [1, 1]]]"

definition test_goalk :: matrix where
  "test_goalk =
     [[- 2, 0, - 1, - 1, 0, 0, 0, 0, 0, 0],
      [0, - 2, - 1, - 1, 0, 0, 0, 0, 0, 0],
      [1, 1, - 1, 0, - 1, - 1, 0, 0, 0, 0],
      [1, 1, 0, - 1, - 1, - 1, 0, 0, 0, 0],
      [0, 0, 1, 1, 0, 0, - 1, - 1, 0, 0],
      [0, 0, 1, 1, 0, 0, - 1, - 1, 0, 0],
      [0, 0, 0, 0, 1, 1, 1, 0, - 1, - 1],
      [0, 0, 0, 0, 1, 1, 0, 1, - 1, - 1],
      [0, 0, 0, 0, 0, 0, 1, 1, 2, 0],
      [0, 0, 0, 0, 0, 0, 1, 1, 0, 2]]"

subsection \<open>Devices of the proofs about integral_factors\<close>







subsection \<open>Devices of the statement about diagonalise\<close>

text \<open>
  What is known of \<open>linalg.gram_schmidt\<close>: it returns as many rows as it is given, of the
  width of its argument when that is an array (all rows of one width). And the \<open>i\<close>-th
  eigenvector as the solver returns it: the \<open>i\<close>-th column of the solver's matrix.
\<close>

definition gs_keeps_shape :: "(matrix \<Rightarrow> matrix) \<Rightarrow> bool" where
  "gs_keeps_shape gs \<longleftrightarrow>
     (\<forall>m. length (gs m) = length m
        \<and> (list_all (\<lambda>r. length r = shape1 m) m \<longrightarrow> list_all (\<lambda>r. length r = shape1 m) (gs m)))"

definition solver_column :: "matrix \<Rightarrow> nat \<Rightarrow> vec" where
  "solver_column eigenvectors0 i = map (\<lambda>row. row ! i) eigenvectors0"

text \<open>
  An eigensolver for diagonal matrices: the eigenvalues are the diagonal entries, in their
  order, and the eigenvectors are the columns of the identity.
\<close>

definition diagonal_solver :: "matrix \<Rightarrow> error + (complex list \<times> matrix)" where
  "diagonal_solver m =
     Inr (map (\<lambda>i. m ! i ! i) [0..<length m],
          map (\<lambda>i. map (\<lambda>j. if i = j then 1 else 0) [0..<length m]) [0..<length m])"

section \<open>Verification\<close>

subsection \<open>find_duplicates on a sorted array\<close>

lemma argsort_sorted: "sorted ar \<Longrightarrow> argsort ar = [0..<length ar]"
  unfolding argsort_def by (rule sort_key_id_if_sorted) (simp add: map_nth)

lemma masked_upt: "map fst (filter snd (zip xs (map P xs))) = filter P xs"
  by (induction xs) auto

lemma unique_index_sorted:
  assumes "sorted ar"
  shows "snd (np_unique_index ar) = filter (\<lambda>k. k = 0 \<or> ar ! k \<noteq> ar ! (k - 1)) [0..<length ar]"
proof -
  have aux: "map (\<lambda>i. ar ! i) [0..<length ar] = ar" by (rule map_nth)
  show ?thesis
    unfolding np_unique_index_def Let_def argsort_sorted [OF assms] aux snd_conv
    by (rule masked_upt)
qed

lemma run_bounds_strict: "sorted_wrt (<) (run_bounds ar)"
  unfolding run_bounds_def by (auto simp: sorted_wrt_append intro: sorted_wrt_filter)

lemma run_bounds_set: "set (run_bounds ar) = {k. k < length ar \<and> (k = 0 \<or> ar ! k \<noteq> ar ! (k - 1))} \<union> {length ar}"
  unfolding run_bounds_def by auto

lemma run_bounds_hd: "ar \<noteq> [] \<Longrightarrow> run_bounds ar = 0 # drop 1 (filter (\<lambda>k. k = 0 \<or> ar ! k \<noteq> ar ! (k - 1)) [0..<length ar]) @ [length ar]"
  unfolding run_bounds_def by (cases ar) (auto simp: upt_conv_Cons simp del: upt_Suc)

lemma py_slice_upt: "a \<le> b \<Longrightarrow> b \<le> n \<Longrightarrow> py_slice [0..<n] a b = [a..<b]"
  unfolding py_slice_def by simp


lemma find_duplicates_sorted:
  assumes "sorted ar" "ar \<noteq> []"
  shows "find_duplicates ar =
     filter (\<lambda>x. length x > 1)
       (map (\<lambda>i. [run_bounds ar ! i..<run_bounds ar ! (i + 1)]) [0..<length (run_bounds ar) - 1])"
proof -
  let ?S = "filter (\<lambda>k. k = 0 \<or> ar ! k \<noteq> ar ! (k - 1)) [0..<length ar]"
  let ?L = "run_bounds ar"
  have L: "[0] @ drop 1 ?S @ [length ar] = ?L"
    using run_bounds_hd [OF assms(2)] by simp
  have len: "length (drop 1 ?S) + 1 = length ?L - 1"
    unfolding L [symmetric] by simp
  have slice: "py_slice [0..<length ar] (?L ! i) (?L ! (i + 1)) = [?L ! i..<?L ! (i + 1)]"
    if "i < length ?L - 1" for i
  proof (rule py_slice_upt)
    from that show "?L ! i \<le> ?L ! (i + 1)"
      using sorted_wrt_nth_less [OF run_bounds_strict, of i "i + 1" ar] by fastforce
    from that have "?L ! (i + 1) \<in> set ?L" by (intro nth_mem) simp
    then show "?L ! (i + 1) \<le> length ar" by (auto simp: run_bounds_set)
  qed
  have "find_duplicates ar = filter (\<lambda>x. length x > 1)
     (map (\<lambda>i. py_slice [0..<length ar] (?L ! i) (?L ! (i + 1))) [0..<length ?L - 1])"
    by (simp only: find_duplicates_def Let_def unique_index_sorted [OF assms(1)] np_split_def
      length_upt diff_zero L len)
  also have "map (\<lambda>i. py_slice [0..<length ar] (?L ! i) (?L ! (i + 1))) [0..<length ?L - 1]
     = map (\<lambda>i. [?L ! i..<?L ! (i + 1)]) [0..<length ?L - 1]"
    by (rule map_cong) (use slice in auto)
  finally show ?thesis .
qed

lemma find_duplicates_Nil: "find_duplicates [] = []"
  by (simp add: find_duplicates_def np_unique_index_def argsort_def np_split_def py_slice_def)


lemma run_bounds_gap:
  assumes i: "i + 1 < length (run_bounds ar)"
    and k: "run_bounds ar ! i < k" "k < run_bounds ar ! (i + 1)"
  shows "k \<notin> set (run_bounds ar)"
proof
  assume "k \<in> set (run_bounds ar)"
  then obtain j where j: "j < length (run_bounds ar)" "run_bounds ar ! j = k"
    by (auto simp: in_set_conv_nth)
  note mono = sorted_wrt_nth_less [OF run_bounds_strict]
  have "i < j"
  proof (rule ccontr)
    assume "\<not> i < j"
    then have "j = i \<or> j < i" by auto
    then show False using mono [of j i ar] i k j by auto
  qed
  moreover have "j < i + 1"
  proof (rule ccontr)
    assume "\<not> j < i + 1"
    then have "j = i + 1 \<or> i + 1 < j" by auto
    then show False using mono [of "i + 1" j ar] i k j by auto
  qed
  ultimately show False by simp
qed

lemma run_bounds_group:
  assumes i: "i + 1 < length (run_bounds ar)"
  shows "maximal_run ar (run_bounds ar ! i) (run_bounds ar ! (i + 1))"
proof -
  let ?L = "run_bounds ar"
  let ?a = "?L ! i" and ?b = "?L ! (i + 1)"
  have ab: "?a < ?b" using sorted_wrt_nth_less [OF run_bounds_strict, of i "i + 1" ar] i by simp
  have "?a \<in> set ?L" "?b \<in> set ?L" using i by simp_all
  then have b: "?b \<le> length ar" "?b = length ar \<or> ar ! ?b \<noteq> ar ! (?b - 1)"
    and a: "?a = 0 \<or> ar ! ?a \<noteq> ar ! (?a - 1)"
    using ab by (auto simp: run_bounds_set)
  have step: "ar ! k = ar ! (k - 1)" if "?a < k" "k < ?b" for k
  proof -
    have "k \<notin> set ?L" using run_bounds_gap [OF i that] .
    with that b(1) show ?thesis by (auto simp: run_bounds_set)
  qed
  have const: "ar ! k = ar ! ?a" if "?a \<le> k" "k < ?b" for k
    using that
  proof (induction k)
    case 0
    then show ?case by simp
  next
    case (Suc k)
    show ?case
    proof (cases "?a = Suc k")
      case True
      then show ?thesis by simp
    next
      case False
      with Suc.prems have "?a \<le> k" "k < ?b" "?a < Suc k" by auto
      with Suc.IH step [of "Suc k"] Suc.prems show ?thesis by simp
    qed
  qed
  have last: "ar ! (?b - 1) = ar ! ?a" using const [of "?b - 1"] ab by auto
  have c1: "\<forall>k. ?a \<le> k \<and> k < ?b \<longrightarrow> ar ! k = ar ! ?a" using const by blast
  have c2: "?a = 0 \<or> ar ! (?a - 1) \<noteq> ar ! ?a" using a by auto
  have c3: "?b = length ar \<or> ar ! ?b \<noteq> ar ! ?a" using b(2) last by auto
  show ?thesis unfolding maximal_run_def using ab b(1) c1 c2 c3 by blast
qed


lemma maximal_run_end_unique:
  assumes "maximal_run ar a b" "maximal_run ar a b'"
  shows "b = b'"
proof (rule ccontr)
  assume ne: "b \<noteq> b'"
  have *: False if r: "maximal_run ar a c" "maximal_run ar a d" and lt: "c < d" for c d
  proof -
    from r(2) lt have "c < length ar" unfolding maximal_run_def by simp
    with r(1) have "ar ! c \<noteq> ar ! a" unfolding maximal_run_def by blast
    moreover from r(1) have "a \<le> c" unfolding maximal_run_def by simp
    with r(2) lt have "ar ! c = ar ! a" unfolding maximal_run_def by blast
    ultimately show False by simp
  qed
  from ne have "b < b' \<or> b' < b" by auto
  then show False using * assms by blast
qed

lemma run_bounds_last: "run_bounds ar ! (length (run_bounds ar) - 1) = length ar"
  unfolding run_bounds_def by (simp add: nth_append)

lemma maximal_run_in_bounds:
  assumes "maximal_run ar a b"
  shows "\<exists>i. i + 1 < length (run_bounds ar) \<and> run_bounds ar ! i = a \<and> run_bounds ar ! (i + 1) = b"
proof -
  let ?L = "run_bounds ar"
  from assms have a1: "a < length ar" unfolding maximal_run_def by simp
  from assms have a2: "a = 0 \<or> ar ! a \<noteq> ar ! (a - 1)" unfolding maximal_run_def by metis
  from a1 a2 have "a \<in> set ?L" unfolding run_bounds_set by blast
  then obtain i where i: "i < length ?L" "?L ! i = a" unfolding in_set_conv_nth by blast
  have "i \<noteq> length ?L - 1"
  proof
    assume "i = length ?L - 1"
    with i(2) run_bounds_last [of ar] have "a = length ar" by simp
    with a1 show False by simp
  qed
  with i have i1: "i + 1 < length ?L" by simp
  from run_bounds_group [OF i1] i(2) have "maximal_run ar a (?L ! (i + 1))" by simp
  with assms have "?L ! (i + 1) = b" by (rule maximal_run_end_unique [symmetric])
  with i i1 show ?thesis by blast
qed

lemma find_duplicates_set:
  assumes "sorted ar"
  shows "set (find_duplicates ar) = {[a..<b] |a b. maximal_run ar a b \<and> a + 2 \<le> b}"
proof (cases "ar = []")
  case True
  then show ?thesis by (auto simp: find_duplicates_Nil maximal_run_def)
next
  case False
  let ?L = "run_bounds ar"
  note eq = find_duplicates_sorted [OF assms False]
  show ?thesis
  proof (intro set_eqI iffI)
    fix g assume "g \<in> set (find_duplicates ar)"
    then obtain i where i: "i < length ?L - 1" "g = [?L ! i..<?L ! (i + 1)]" "1 < length g"
      unfolding eq by auto
    then have "maximal_run ar (?L ! i) (?L ! (i + 1))" by (intro run_bounds_group) simp
    moreover from i have "?L ! i + 2 \<le> ?L ! (i + 1)" by simp
    ultimately show "g \<in> {[a..<b] |a b. maximal_run ar a b \<and> a + 2 \<le> b}"
      using i(2) by blast
  next
    fix g assume "g \<in> {[a..<b] |a b. maximal_run ar a b \<and> a + 2 \<le> b}"
    then obtain a b where g: "g = [a..<b]" "maximal_run ar a b" "a + 2 \<le> b" by blast
    from maximal_run_in_bounds [OF g(2)] obtain i where
      i: "i + 1 < length ?L" "?L ! i = a" "?L ! (i + 1) = b" by blast
    then have "i \<in> set [0..<length ?L - 1]" by simp
    then have "[?L ! i..<?L ! (i + 1)] \<in> set (map (\<lambda>i. [?L ! i..<?L ! (i + 1)]) [0..<length ?L - 1])"
      unfolding set_map by (rule imageI)
    with g i show "g \<in> set (find_duplicates ar)" unfolding eq by simp
  qed
qed

lemma sorted_wrt_map_upt:
  assumes "\<And>i j. i < j \<Longrightarrow> j < n \<Longrightarrow> R (f i) (f j)"
  shows "sorted_wrt R (map f [0..<n])"
  unfolding sorted_wrt_map
  by (rule sorted_wrt_mono_rel [of "[0..<n]" "(<)"]) (use assms in auto)

lemma find_duplicates_ascending:
  assumes "sorted ar"
  shows "sorted_wrt (\<lambda>g h. \<forall>x\<in>set g. \<forall>y\<in>set h. x < y) (find_duplicates ar)"
proof (cases "ar = []")
  case True
  then show ?thesis by (simp add: find_duplicates_Nil)
next
  case False
  let ?L = "run_bounds ar"
  note mono = sorted_wrt_nth_less [OF run_bounds_strict]
  have "sorted_wrt (\<lambda>g h. \<forall>x\<in>set g. \<forall>y\<in>set h. x < y)
     (map (\<lambda>i. [?L ! i..<?L ! (i + 1)]) [0..<length ?L - 1])"
  proof (rule sorted_wrt_map_upt, intro ballI)
    fix i j x y
    assume ij: "i < j" "j < length ?L - 1"
      and x: "x \<in> set [?L ! i..<?L ! (i + 1)]"
      and y: "y \<in> set [?L ! j..<?L ! (j + 1)]"
    from ij have j: "j + 1 < length ?L" by simp
    from x y have xy: "x < ?L ! (i + 1)" "?L ! j \<le> y" by simp_all
    have "?L ! (i + 1) \<le> ?L ! j"
    proof (cases "i + 1 = j")
      case True
      then show ?thesis by simp
    next
      case False
      with ij have "i + 1 < j" by simp
      with mono [of "i + 1" j ar] j show ?thesis by simp
    qed
    with xy show "x < y" by simp
  qed
  then show ?thesis unfolding find_duplicates_sorted [OF assms False] by (rule sorted_wrt_filter)
qed


lemma sorted_wrt_irrefl_distinct:
  "sorted_wrt R xs \<Longrightarrow> \<forall>x\<in>set xs. \<not> R x x \<Longrightarrow> distinct xs"
  by (induction xs) auto

lemma find_duplicates_distinct:
  assumes "sorted ar"
  shows "distinct (find_duplicates ar)"
proof (rule sorted_wrt_irrefl_distinct [OF find_duplicates_ascending [OF assms]], intro ballI)
  fix g assume "g \<in> set (find_duplicates ar)"
  then have "1 < length g" unfolding find_duplicates_def Let_def by simp
  then have "g \<noteq> []" by auto
  then obtain x where "x \<in> set g" by (cases g) auto
  then show "\<not> (\<forall>x\<in>set g. \<forall>y\<in>set g. x < y)" by blast
qed

lemma find_duplicates_repeated:
  assumes "sorted ar" and g: "g \<in> set (find_duplicates ar)" and i: "i \<in> set g"
  shows "\<exists>j<length ar. j \<noteq> i \<and> ar ! j = ar ! i"
proof -
  from g obtain a b where ab: "g = [a..<b]" "maximal_run ar a b" "a + 2 \<le> b"
    unfolding find_duplicates_set [OF assms(1)] by blast
  from ab(2) have b: "b \<le> length ar" unfolding maximal_run_def by simp
  from ab(2) have const: "ar ! k = ar ! a" if "a \<le> k" "k < b" for k
    using that unfolding maximal_run_def by blast
  from i ab(1) have ib: "a \<le> i" "i < b" by simp_all
  show ?thesis
  proof (cases "i = a")
    case True
    have "ar ! (a + 1) = ar ! a" using ab(3) by (intro const) simp_all
    with True ab(3) b show ?thesis by (intro exI [of _ "a + 1"]) simp
  next
    case False
    have "ar ! i = ar ! a" using ib by (intro const)
    with False ib b show ?thesis by (intro exI [of _ a]) simp
  qed
qed

lemma find_duplicates_strict:
  assumes "sorted ar" "distinct ar"
  shows "find_duplicates ar = []"
proof (rule ccontr)
  assume "find_duplicates ar \<noteq> []"
  then obtain g where g: "g \<in> set (find_duplicates ar)" by (cases "find_duplicates ar") auto
  then have "1 < length g" unfolding find_duplicates_def Let_def by simp
  then obtain i where i: "i \<in> set g" by (cases g) auto
  from find_duplicates_repeated [OF assms(1) g i] obtain j where
    j: "j < length ar" "j \<noteq> i" "ar ! j = ar ! i" by blast
  from g i obtain a b where "i \<in> set [a..<b]" "maximal_run ar a b"
    unfolding find_duplicates_set [OF assms(1)] by blast
  then have "i < length ar" unfolding maximal_run_def by simp
  with j assms(2) show False by (simp add: nth_eq_iff_index_eq)
qed

text \<open>
  C8. On a sorted array \<open>find_duplicates\<close> yields exactly the index ranges of the
  maximal runs of equal values of length at least two, each once and in ascending order of
  position; an index that is yielded holds a value that occurs at another index too; on
  strictly distinct values nothing is yielded; on \<open>[1, 2, 2, 2, 3]\<close> the single group
  \<open>[1, 2, 3]\<close> is yielded and on \<open>[1, 1, 2, 2, 3, 4, 4]\<close> the groups \<open>[0, 1]\<close>,
  \<open>[2, 3]\<close> and \<open>[5, 6]\<close>.
\<close>

theorem find_duplicates_groups:
  assumes "sorted ar"
  shows "set (find_duplicates ar) = {[a..<b] |a b. maximal_run ar a b \<and> a + 2 \<le> b}
    \<and> sorted_wrt (\<lambda>g h. \<forall>x\<in>set g. \<forall>y\<in>set h. x < y) (find_duplicates ar)
    \<and> distinct (find_duplicates ar)
    \<and> (\<forall>g\<in>set (find_duplicates ar). \<forall>i\<in>set g. \<exists>j<length ar. j \<noteq> i \<and> ar ! j = ar ! i)
    \<and> (distinct ar \<longrightarrow> find_duplicates ar = [])
    \<and> find_duplicates [1, 2, 2, 2, 3] = [[1, 2, 3]]
    \<and> find_duplicates [1, 1, 2, 2, 3, 4, 4] = [[0, 1], [2, 3], [5, 6]]"
proof -
  have e1: "find_duplicates [1, 2, 2, 2, 3] = [[1, 2, 3]]" by code_simp
  have e2: "find_duplicates [1, 1, 2, 2, 3, 4, 4] = [[0, 1], [2, 3], [5, 6]]" by code_simp
  show ?thesis
    using find_duplicates_set [OF assms] find_duplicates_ascending [OF assms]
      find_duplicates_distinct [OF assms] find_duplicates_repeated [OF assms]
      find_duplicates_strict [OF assms] e1 e2
    by blast
qed

theorem find_duplicates_groups_witness:
  "sorted [1, 1, 2, 2, 3, 4, 4 :: real]
   \<and> set (find_duplicates [1, 1, 2, 2, 3, 4, 4]) = {[0, 1], [2, 3], [5, 6]}
   \<and> {[a..<b] |a b. maximal_run [1, 1, 2, 2, 3, 4, 4] a b \<and> a + 2 \<le> b} = {[0, 1], [2, 3], [5, 6]}
   \<and> sorted [1, 2, 4 :: real] \<and> distinct [1, 2, 4 :: real] \<and> find_duplicates [1, 2, 4] = []"
proof -
  have s1: "sorted [1, 1, 2, 2, 3, 4, 4 :: real]" by simp
  have s2: "sorted [1, 2, 4 :: real]" and d2: "distinct [1, 2, 4 :: real]" by simp_all
  note t1 = find_duplicates_groups [OF s1]
  note t2 = find_duplicates_groups [OF s2]
  from t1 have v: "find_duplicates [1, 1, 2, 2, 3, 4, 4] = [[0, 1], [2, 3], [5, 6]]" by blast
  from t1 have "set (find_duplicates [1, 1, 2, 2, 3, 4, 4])
      = {[a..<b] |a b. maximal_run [1, 1, 2, 2, 3, 4, 4] a b \<and> a + 2 \<le> b}" by (rule conjunct1)
  then have r: "{[a..<b] |a b. maximal_run [1, 1, 2, 2, 3, 4, 4] a b \<and> a + 2 \<le> b}
      = {[0, 1], [2, 3], [5, 6]}" unfolding v by (simp only: list.set)
  from t2 d2 have "find_duplicates [1, 2, 4] = []" by blast
  with s1 s2 d2 v r show ?thesis by simp
qed

subsection \<open>conjugate_rotate_into\<close>

lemma np_roll_rotate:
  "np_roll xs s = rotate (nat ((- s) mod int (length xs))) xs"
proof (cases "xs = []")
  case True
  then show ?thesis by (simp add: np_roll_def)
next
  case False
  let ?L = "length xs"
  have L: "0 < int ?L" using False by simp
  show ?thesis
  proof (rule nth_equalityI)
    show "length (np_roll xs s) = length (rotate (nat ((- s) mod int ?L)) xs)"
      by (simp add: np_roll_def)
  next
    fix i assume "i < length (np_roll xs s)"
    then have i: "i < ?L" by (simp add: np_roll_def)
    have nn: "0 \<le> (- s) mod int ?L" using L by simp
    have "int ((nat ((- s) mod int ?L) + i) mod ?L) = ((- s) mod int ?L + int i) mod int ?L"
      using nn by (simp add: zmod_int)
    also have "\<dots> = (int i - s) mod int ?L"
      by (simp add: mod_add_left_eq)
    finally have "(nat ((- s) mod int ?L) + i) mod ?L = nat ((int i - s) mod int ?L)"
      by linarith
    with i show "np_roll xs s ! i = rotate (nat ((- s) mod int ?L)) xs ! i"
      by (simp add: np_roll_def nth_rotate)
  qed
qed

lemma conj_rows_append: "conj_rows (xs @ ys) = conj_rows xs @ conj_rows ys"
  by (simp add: conj_rows_def)

lemma length_conj_rows: "length (conj_rows xs) = length xs"
  by (simp add: conj_rows_def)

lemma rotate_drop_take_le: "a \<le> length xs \<Longrightarrow> rotate a xs = drop a xs @ take a xs"
  by (cases "a = length xs") (simp_all add: rotate_drop_take)

lemma slice_bound_neg: "0 < a \<Longrightarrow> slice_bound n (- int a) = n - a"
  by (simp add: slice_bound_def)

lemma slice_bound_pos: "slice_bound n (int a) = min a n"
  by (simp add: slice_bound_def)

lemma conjugate_rotate_into_neg:
  assumes "length out = length input" "0 < a" "a \<le> length input"
  shows "conjugate_rotate_into out input (- int a) = Inr (conj_rows (drop a input @ take a input))"
proof -
  have abs: "\<bar>- int a\<bar> = int a" by simp
  have neg: "- int a < 0" using assms(2) by simp
  show ?thesis
    unfolding conjugate_rotate_into_def abs assign_to_def assign_from_def slice_from_def
      slice_to_def slice_bound_neg [OF assms(2)] slice_bound_pos Let_def length_conj_rows
    using assms neg by (simp add: conj_rows_append)
qed

lemma conjugate_rotate_into_pos:
  assumes "length out = length input" "0 < a" "a \<le> length input"
  shows "conjugate_rotate_into out input (int a)
     = Inr (conj_rows (drop (length input - a) input @ take (length input - a) input))"
proof -
  have pos: "\<not> int a < 0" "int a > 0" using assms(2) by simp_all
  show ?thesis
    unfolding conjugate_rotate_into_def assign_to_def assign_from_def slice_from_def
      slice_to_def slice_bound_neg [OF assms(2)] slice_bound_pos Let_def length_conj_rows
    using assms pos by (simp add: conj_rows_append)
qed

lemma conjugate_rotate_into_zero:
  assumes "length out = length input"
  shows "conjugate_rotate_into out input 0 = Inr (conj_rows input)"
  using assms
  by (simp add: conjugate_rotate_into_def assign_from_def slice_bound_def length_conj_rows)

lemma np_roll_neg:
  assumes "a \<le> length xs"
  shows "np_roll xs (- int a) = drop a xs @ take a xs"
proof (cases "a = length xs")
  case True
  then show ?thesis by (simp add: np_roll_rotate)
next
  case False
  with assms have "a < length xs" by simp
  then have "nat (int a mod int (length xs)) = a" by simp
  then show ?thesis using assms by (simp add: np_roll_rotate rotate_drop_take_le)
qed

lemma np_roll_pos:
  assumes "a \<le> length xs"
  shows "np_roll xs (int a) = drop (length xs - a) xs @ take (length xs - a) xs"
proof -
  let ?L = "length xs"
  have "(int ?L - int a) mod int ?L = (int ?L mod int ?L - int a) mod int ?L"
    by (simp only: mod_diff_left_eq)
  then have "(- int a) mod int ?L = (int ?L - int a) mod int ?L" by simp
  also have "int ?L - int a = int (?L - a)"
    using assms by (simp add: of_nat_diff)
  also have "int (?L - a) mod int ?L = int ((?L - a) mod ?L)"
    by (simp only: zmod_int)
  finally have "nat ((- int a) mod int ?L) = (?L - a) mod ?L" by (simp only: nat_int)
  then have "np_roll xs (int a) = rotate (?L - a) xs"
    by (simp add: np_roll_rotate rotate_conv_mod [symmetric])
  then show ?thesis by (simp add: rotate_drop_take_le)
qed

lemma conjugate_rotate_into_roll:
  assumes len: "length out = length input" and amt: "\<bar>amount\<bar> \<le> int (length input)"
  shows "conjugate_rotate_into out input amount = Inr (conj_rows (np_roll input amount))"
proof -
  consider (neg) "amount < 0" | (pos) "amount > 0" | (zero) "amount = 0" by linarith
  then show ?thesis
  proof cases
    case neg
    define a where "a = nat (- amount)"
    have a: "a \<le> length input" "0 < a" and eq: "amount = - int a"
      using neg amt by (simp_all add: a_def)
    show ?thesis unfolding eq
      by (simp only: conjugate_rotate_into_neg [OF len a(2) a(1)] np_roll_neg [OF a(1)])
  next
    case pos
    define a where "a = nat amount"
    have a: "a \<le> length input" "0 < a" and eq: "amount = int a"
      using pos amt by (simp_all add: a_def)
    show ?thesis unfolding eq
      by (simp only: conjugate_rotate_into_pos [OF len a(2) a(1)] np_roll_pos [OF a(1)])
  next
    case zero
    have "np_roll input 0 = input" using np_roll_neg [of 0 input] by simp
    with zero conjugate_rotate_into_zero [OF len] show ?thesis by simp
  qed
qed

text \<open>
  C7. \<open>conjugate_rotate_into\<close> is stated to leave \<open>out\<close> equal to
  \<open>conj(roll(input, amount))\<close> for every signed amount. That holds for every amount with
  \<open>|amount| \<le> L\<close> (\<open>conjugate_rotate_into_roll\<close>). For a larger amount the slices of the
  source are cut at the ends of the arrays: with three blocks and \<open>amount = 4\<close> the
  function writes the conjugate of the input without any rotation, whereas
  \<open>conj(roll(input, 4))\<close> is the conjugate of the input rotated by one position.
\<close>

theorem conjugate_rotate_into_overshoot:
  "conjugate_rotate_into [[0], [0], [0]] [[\<i>], [2], [3]] 4 = Inr [[- \<i>], [2], [3]]
   \<and> conj_rows (np_roll [[\<i>], [2], [3]] 4) = [[3], [- \<i>], [2]]"
proof -
  have code: "conjugate_rotate_into [[0], [0], [0]] [[\<i>], [2], [3]] 4 = Inr [[- \<i>], [2], [3]]"
    by (simp add: conjugate_rotate_into_def assign_to_def assign_from_def slice_from_def
        slice_to_def slice_bound_def conj_rows_def)
  have roll: "conj_rows (np_roll [[\<i>], [2], [3]] 4) = [[3], [- \<i>], [2]]"
    by code_simp
  from code roll show ?thesis by (rule conjI)
qed

subsection \<open>du_dcontrols without derivative data\<close>

lemma du_dcontrols_None: "k_derivatives es = None \<Longrightarrow> du_dcontrols es t = Inl AttributeError"
  by (simp add: du_dcontrols_def)

lemma du_dcontrols_Inr_Some:
  assumes "du_dcontrols es t = Inr out"
  shows "\<exists>dk. k_derivatives es = Some dk"
proof (cases "k_derivatives es")
  case None
  with assms show ?thesis by (simp add: du_dcontrols_def)
next
  case (Some dk)
  then show ?thesis by blast
qed

lemma du_dcontrols_no_parameters: "k_derivatives es = Some [] \<Longrightarrow> du_dcontrols es t = Inr []"
  by (simp add: du_dcontrols_def)

lemma eigensystem_without_derivatives:
  assumes "eigensystem eig eigs gs hamiltonian None n_zones freq decimals sparse = Inr es"
  shows "k_derivatives es = None"
  using assms unfolding eigensystem_def Let_def
  by (auto split: sum.splits prod.splits)

text \<open>
  C6. For a bundle whose \<open>k_derivatives\<close> is \<open>None\<close>, and so for every bundle that
  \<open>eigensystem\<close> builds when \<open>dhamiltonian\<close> is \<open>None\<close>, \<open>du_dcontrols\<close> raises at every time
  and returns nothing. Whenever it returns a tensor the derivative data is present; the
  early return of the (empty) zero tensor is taken when the derivative data is present with
  no parameter.
\<close>

theorem du_dcontrols_needs_derivatives:
  "(k_derivatives es = None \<longrightarrow> du_dcontrols es t = Inl AttributeError)
   \<and> (eigensystem eig eigs gs hamiltonian None n_zones freq decimals sparse = Inr es
        \<longrightarrow> du_dcontrols es t = Inl AttributeError)
   \<and> (du_dcontrols es t = Inr out \<longrightarrow> (\<exists>dk. k_derivatives es = Some dk))
   \<and> (k_derivatives es = Some [] \<longrightarrow> du_dcontrols es t = Inr [])"
proof (intro conjI impI)
  assume "k_derivatives es = None"
  then show "du_dcontrols es t = Inl AttributeError" by (rule du_dcontrols_None)
next
  assume "eigensystem eig eigs gs hamiltonian None n_zones freq decimals sparse = Inr es"
  then have "k_derivatives es = None" by (rule eigensystem_without_derivatives)
  then show "du_dcontrols es t = Inl AttributeError" by (rule du_dcontrols_None)
next
  assume "du_dcontrols es t = Inr out"
  then show "\<exists>dk. k_derivatives es = Some dk" by (rule du_dcontrols_Inr_Some)
next
  assume "k_derivatives es = Some []"
  then show "du_dcontrols es t = Inr []" by (rule du_dcontrols_no_parameters)
qed

lemma eigensystem_unit:
  "eigensystem unit_solver no_sparse_solver id [[[1 / 4]]] None 1 1 8 False = Inr unit_bundle"
  by code_simp

theorem du_dcontrols_needs_derivatives_witness:
  "eigensystem unit_solver no_sparse_solver id [[[1 / 4]]] None 1 1 8 False = Inr unit_bundle
   \<and> k_derivatives unit_bundle = None
   \<and> du_dcontrols unit_bundle 1 = Inl AttributeError
   \<and> k_derivatives (unit_bundle\<lparr>k_derivatives := Some []\<rparr>) = Some []
   \<and> du_dcontrols (unit_bundle\<lparr>k_derivatives := Some []\<rparr>) 1 = Inr []"
proof -
  have n: "k_derivatives unit_bundle = None" by (simp add: unit_bundle_def)
  have s: "k_derivatives (unit_bundle\<lparr>k_derivatives := Some []\<rparr>) = Some []" by simp
  from du_dcontrols_needs_derivatives
         [of unit_bundle 1 unit_solver no_sparse_solver id "[[[1 / 4]]]" 1 1 8 False] eigensystem_unit
  have a: "du_dcontrols unit_bundle 1 = Inl AttributeError" by blast
  from du_dcontrols_needs_derivatives [of "unit_bundle\<lparr>k_derivatives := Some []\<rparr>" 1] s
  have b: "du_dcontrols (unit_bundle\<lparr>k_derivatives := Some []\<rparr>) 1 = Inr []" by blast
  from eigensystem_unit n a s b show ?thesis by blast
qed

subsection \<open>first_brillouin_zone\<close>

declare count_lower_edge.simps [simp del] count_upper_edge.simps [simp del]

lemma py_get_nat: "i < length xs \<Longrightarrow> py_get xs (int i) = Inr (xs ! i)"
  by (simp add: py_get_def)

lemma count_lower_edge_stops:
  assumes "lower + k \<le> m" "m < length ev" "ev ! m \<noteq> - edge"
  shows "\<exists>n. count_lower_edge ev edge lower k = Inr n \<and> k \<le> n \<and> lower + n \<le> m"
  using assms
proof (induction "m - (lower + k)" arbitrary: k)
  case 0
  then have "lower + k = m" by simp
  with 0 have "py_get ev (int lower + int k) = Inr (ev ! m)"
    using py_get_nat [of m ev] by (simp add: of_nat_add [symmetric] del: of_nat_add)
  with 0 \<open>lower + k = m\<close> show ?case
    by (subst count_lower_edge.simps) simp
next
  case (Suc d)
  then have lt: "lower + k < length ev" by simp
  then have get: "py_get ev (int lower + int k) = Inr (ev ! (lower + k))"
    using py_get_nat [of "lower + k" ev] by (simp add: of_nat_add [symmetric] del: of_nat_add)
  show ?case
  proof (cases "ev ! (lower + k) = - edge")
    case True
    from Suc.hyps(2) Suc.prems have "d = m - (lower + (k + 1))" "lower + (k + 1) \<le> m" by simp_all
    from Suc.hyps(1) [OF this Suc.prems(2,3)] obtain n where
      n: "count_lower_edge ev edge lower (k + 1) = Inr n" "k + 1 \<le> n" "lower + n \<le> m" by blast
    with True get show ?thesis
      by (subst count_lower_edge.simps) simp
  next
    case False
    with get Suc.prems show ?thesis
      by (subst count_lower_edge.simps) simp
  qed
qed

lemma count_upper_edge_stops:
  assumes "m + k < upper" "upper \<le> length ev" "ev ! m \<noteq> edge"
  shows "\<exists>n. count_upper_edge ev edge upper k = Inr n \<and> k \<le> n \<and> m + n < upper"
  using assms
proof (induction "upper - k - m" arbitrary: k)
  case 0
  then show ?case by simp
next
  case (Suc d)
  let ?i = "upper - k - 1"
  from Suc.prems have i: "?i < length ev" "int upper - int k - 1 = int ?i" by auto
  then have get: "py_get ev (int upper - int k - 1) = Inr (ev ! ?i)"
    using py_get_nat [of ?i ev] by simp
  show ?case
  proof (cases "ev ! ?i = edge")
    case True
    with Suc.prems have "?i \<noteq> m" by auto
    with Suc.prems Suc.hyps(2) have "d = upper - (k + 1) - m" "m + (k + 1) < upper" by auto
    from Suc.hyps(1) [OF this Suc.prems(2,3)] obtain n where
      n: "count_upper_edge ev edge upper (k + 1) = Inr n" "k + 1 \<le> n" "m + n < upper" by blast
    with True get show ?thesis
      by (subst count_upper_edge.simps) simp
  next
    case False
    with get Suc.prems show ?thesis
      by (subst count_upper_edge.simps) simp
  qed
qed

lemma takeWhile_nth_holds:
  assumes "i < length (takeWhile P xs)"
  shows "P (xs ! i)"
proof -
  from assms have "takeWhile P xs ! i \<in> set (takeWhile P xs)" by (rule nth_mem)
  then have "P (takeWhile P xs ! i)" by (rule set_takeWhileD [THEN conjunct2])
  with assms show ?thesis by (simp add: takeWhile_nth)
qed

lemma searchsorted_left_below:
  "i < searchsorted_left ev v \<Longrightarrow> ev ! i < v"
  unfolding searchsorted_left_def by (rule takeWhile_nth_holds)

lemma searchsorted_right_below:
  "i < searchsorted_right ev v \<Longrightarrow> ev ! i \<le> v"
  unfolding searchsorted_right_def by (rule takeWhile_nth_holds)

lemma searchsorted_left_above:
  assumes "sorted ev" "searchsorted_left ev v \<le> i" "i < length ev"
  shows "v \<le> ev ! i"
proof -
  let ?u = "searchsorted_left ev v"
  from assms have "?u < length ev" by simp
  then have "\<not> ev ! ?u < v"
    unfolding searchsorted_left_def by (rule nth_length_takeWhile)
  moreover from assms have "ev ! ?u \<le> ev ! i" by (simp add: sorted_nth_mono)
  ultimately show ?thesis by simp
qed

lemma searchsorted_right_le: "searchsorted_right ev v \<le> length ev"
  unfolding searchsorted_right_def by (rule length_takeWhile_le)

lemma searchsorted_left_le: "searchsorted_left ev v \<le> length ev"
  unfolding searchsorted_left_def by (rule length_takeWhile_le)

lemma searchsorted_right_above:
  assumes "sorted ev" "searchsorted_right ev v \<le> i" "i < length ev"
  shows "v < ev ! i"
proof -
  let ?u = "searchsorted_right ev v"
  from assms have "?u < length ev" by simp
  then have "\<not> ev ! ?u \<le> v"
    unfolding searchsorted_right_def by (rule nth_length_takeWhile)
  moreover from assms have "ev ! ?u \<le> ev ! i" by (simp add: sorted_nth_mono)
  ultimately show ?thesis by simp
qed


lemma first_brillouin_zone_sorted:
  assumes "sorted ev" "length ev \<le> length vecs"
  shows "first_brillouin_zone ev vecs n_values edge =
     (let lower = searchsorted_left ev (- edge);
          upper = searchsorted_right ev edge;
          vs = take (length ev) vecs
      in case count_lower_edge ev edge lower 0 of
           Inl e \<Rightarrow> Inl e
         | Inr n_lower_edge \<Rightarrow>
             (case count_upper_edge ev edge upper 0 of
                Inl e \<Rightarrow> Inl e
              | Inr n_upper_edge \<Rightarrow>
                  let n_not_on_edge = (int upper - int n_upper_edge) - (int lower + int n_lower_edge)
                  in if n_not_on_edge = int n_values then
                       Inr (slice_between ev (int lower + int n_lower_edge) (int upper - int n_upper_edge),
                            slice_between vs (int lower + int n_lower_edge) (int upper - int n_upper_edge))
                     else if n_not_on_edge + int n_lower_edge = int n_values then
                       Inr (slice_between ev (int lower) (int upper - int n_upper_edge),
                            slice_between vs (int lower) (int upper - int n_upper_edge))
                     else if n_not_on_edge + int n_upper_edge = int n_values then
                       Inr (slice_between ev (int lower + int n_lower_edge) (int upper),
                            slice_between vs (int lower + int n_lower_edge) (int upper))
                     else Inl RuntimeError))"
proof -
  have order: "argsort ev = [0..<length ev]" using assms(1) by (rule argsort_sorted)
  have ev: "map (\<lambda>i. ev ! i) [0..<length ev] = ev" by (rule map_nth)
  have vs: "map (\<lambda>i. vecs ! i) [0..<length ev] = take (length ev) vecs"
    using assms(2) by (intro nth_equalityI) simp_all
  have ok: "\<not> list_ex (\<lambda>i. length vecs \<le> i) [0..<length ev]"
    using assms(2) by (auto simp: list_ex_iff)
  show ?thesis
    unfolding first_brillouin_zone_def Let_def order ev vs using ok by simp
qed

lemma edge_counts_in_bounds:
  assumes "sorted ev" "\<exists>v\<in>set ev. - edge < v" "\<exists>v\<in>set ev. v < edge"
  shows "\<exists>n_lower_edge n_upper_edge.
      count_lower_edge ev edge (searchsorted_left ev (- edge)) 0 = Inr n_lower_edge
    \<and> count_upper_edge ev edge (searchsorted_right ev edge) 0 = Inr n_upper_edge
    \<and> searchsorted_left ev (- edge) + n_lower_edge < length ev
    \<and> n_upper_edge < searchsorted_right ev edge
    \<and> searchsorted_right ev edge \<le> length ev"
proof -
  let ?lower = "searchsorted_left ev (- edge)" and ?upper = "searchsorted_right ev edge"
  from assms(2) obtain m where m: "m < length ev" "- edge < ev ! m"
    by (auto simp: in_set_conv_nth)
  have "?lower \<le> m"
  proof (rule ccontr)
    assume "\<not> ?lower \<le> m"
    then have "ev ! m < - edge" by (intro searchsorted_left_below) simp
    with m show False by simp
  qed
  with m have "\<exists>n. count_lower_edge ev edge ?lower 0 = Inr n \<and> 0 \<le> n \<and> ?lower + n \<le> m"
    by (intro count_lower_edge_stops) simp_all
  then obtain nl where nl: "count_lower_edge ev edge ?lower 0 = Inr nl" "?lower + nl \<le> m"
    by blast
  from assms(3) obtain m' where m': "m' < length ev" "ev ! m' < edge"
    by (auto simp: in_set_conv_nth)
  have "m' < ?upper"
  proof (rule ccontr)
    assume "\<not> m' < ?upper"
    with assms(1) m'(1) have "edge < ev ! m'" by (intro searchsorted_right_above) simp_all
    with m' show False by simp
  qed
  with m' have "\<exists>n. count_upper_edge ev edge ?upper 0 = Inr n \<and> 0 \<le> n \<and> m' + n < ?upper"
    by (intro count_upper_edge_stops) (simp_all add: searchsorted_right_le)
  then obtain nu where nu: "count_upper_edge ev edge ?upper 0 = Inr nu" "m' + nu < ?upper"
    by blast
  from nl nu m(1) show ?thesis
    by (intro exI [of _ nl] exI [of _ nu]) (simp add: searchsorted_right_le)
qed


text \<open>
  C9. On a sorted array with an entry above \<open>-edge\<close> and an entry below \<open>edge\<close>, and as
  many eigenvectors as eigenvalues, the two loops end without an exception. The first loop
  reads the indices \<open>lower + k\<close> for \<open>k = 0, \<dots>, n_lower_edge\<close>, the second the indices
  \<open>upper - k - 1\<close> for \<open>k = 0, \<dots>, n_upper_edge\<close>: all of them lie in
  \<open>0 \<dots> len(eigenvalues) - 1\<close>. The function then returns a selection or raises the
  \<open>RuntimeError\<close> of the unresolved zone, nothing else.
\<close>

theorem first_brillouin_zone_reads_in_bounds:
  assumes "sorted ev" "length vecs = length ev"
    and "\<exists>v\<in>set ev. - edge < v" "\<exists>v\<in>set ev. v < edge"
  shows "\<exists>n_lower_edge n_upper_edge.
      count_lower_edge ev edge (searchsorted_left ev (- edge)) 0 = Inr n_lower_edge
    \<and> count_upper_edge ev edge (searchsorted_right ev edge) 0 = Inr n_upper_edge
    \<and> (\<forall>k\<le>n_lower_edge. searchsorted_left ev (- edge) + k < length ev)
    \<and> (\<forall>k\<le>n_upper_edge. 0 \<le> int (searchsorted_right ev edge) - int k - 1
           \<and> int (searchsorted_right ev edge) - int k - 1 < int (length ev))
    \<and> ((\<exists>r. first_brillouin_zone ev vecs n_values edge = Inr r)
         \<or> first_brillouin_zone ev vecs n_values edge = Inl RuntimeError)"
proof -
  let ?lower = "searchsorted_left ev (- edge)" and ?upper = "searchsorted_right ev edge"
  from edge_counts_in_bounds [OF assms(1,3,4)] obtain nl nu where
    nl: "count_lower_edge ev edge ?lower 0 = Inr nl" and
    nu: "count_upper_edge ev edge ?upper 0 = Inr nu" and
    b: "?lower + nl < length ev" "nu < ?upper" "?upper \<le> length ev"
    by blast
  have r1: "\<forall>k\<le>nl. ?lower + k < length ev" using b(1) by simp
  have r2: "\<forall>k\<le>nu. 0 \<le> int ?upper - int k - 1 \<and> int ?upper - int k - 1 < int (length ev)"
    using b(2,3) by auto
  have le: "length ev \<le> length vecs" using assms(2) by simp
  have r3: "(\<exists>r. first_brillouin_zone ev vecs n_values edge = Inr r)
         \<or> first_brillouin_zone ev vecs n_values edge = Inl RuntimeError"
    unfolding first_brillouin_zone_sorted [OF assms(1) le] Let_def nl nu by simp
  from nl nu r1 r2 r3 show ?thesis by blast
qed

theorem first_brillouin_zone_reads_in_bounds_witness:
  "sorted [- 1 / 2, 0, 1 / 2, 1 :: real]
   \<and> length [[1], [2], [3], [4 :: complex]] = length [- 1 / 2, 0, 1 / 2, 1 :: real]
   \<and> (\<exists>v\<in>set [- 1 / 2, 0, 1 / 2, 1 :: real]. - (1 / 2) < v)
   \<and> (\<exists>v\<in>set [- 1 / 2, 0, 1 / 2, 1 :: real]. v < 1 / 2)
   \<and> first_brillouin_zone [- 1 / 2, 0, 1 / 2, 1] [[1], [2], [3], [4 :: complex]] 2 (1 / 2)
        = Inr ([- 1 / 2, 0], [[1], [2]])
   \<and> (\<exists>n_lower_edge n_upper_edge.
        count_lower_edge [- 1 / 2, 0, 1 / 2, 1] (1 / 2)
          (searchsorted_left [- 1 / 2, 0, 1 / 2, 1] (- (1 / 2))) 0 = Inr n_lower_edge
      \<and> count_upper_edge [- 1 / 2, 0, 1 / 2, 1] (1 / 2)
          (searchsorted_right [- 1 / 2, 0, 1 / 2, 1] (1 / 2)) 0 = Inr n_upper_edge
      \<and> searchsorted_left [- 1 / 2, 0, 1 / 2, 1] (- (1 / 2)) + n_lower_edge < 4
      \<and> n_upper_edge < searchsorted_right [- 1 / 2, 0, 1 / 2, 1] (1 / 2))"
proof -
  have h1: "sorted [- 1 / 2, 0, 1 / 2, 1 :: real]" by simp
  have h2: "length [[1], [2], [3], [4 :: complex]] = length [- 1 / 2, 0, 1 / 2, 1 :: real]" by simp
  have h3: "\<exists>v\<in>set [- 1 / 2, 0, 1 / 2, 1 :: real]. - (1 / 2) < v" by simp
  have h4: "\<exists>v\<in>set [- 1 / 2, 0, 1 / 2, 1 :: real]. v < 1 / 2" by simp
  have v: "first_brillouin_zone [- 1 / 2, 0, 1 / 2, 1] [[1], [2], [3], [4 :: complex]] 2 (1 / 2)
        = Inr ([- 1 / 2, 0], [[1], [2]])" by code_simp
  from first_brillouin_zone_reads_in_bounds [OF h1 h2 h3 h4, of 2] obtain nl nu where
    c1: "count_lower_edge [- 1 / 2, 0, 1 / 2, 1] (1 / 2)
          (searchsorted_left [- 1 / 2, 0, 1 / 2, 1] (- (1 / 2))) 0 = Inr nl" and
    c2: "count_upper_edge [- 1 / 2, 0, 1 / 2, 1] (1 / 2)
          (searchsorted_right [- 1 / 2, 0, 1 / 2, 1] (1 / 2)) 0 = Inr nu" and
    c3: "\<forall>k\<le>nl. searchsorted_left [- 1 / 2, 0, 1 / 2, 1] (- (1 / 2)) + k
        < length [- 1 / 2, 0, 1 / 2, 1 :: real]" and
    c4: "\<forall>k\<le>nu. 0 \<le> int (searchsorted_right [- 1 / 2, 0, 1 / 2, 1] (1 / 2)) - int k - 1
        \<and> int (searchsorted_right [- 1 / 2, 0, 1 / 2, 1] (1 / 2)) - int k - 1
            < int (length [- 1 / 2, 0, 1 / 2, 1 :: real])"
    by blast
  from c3 have "searchsorted_left [- 1 / 2, 0, 1 / 2, 1] (- (1 / 2)) + nl
      < length [- 1 / 2, 0, 1 / 2, 1 :: real]" by blast
  then have d3: "searchsorted_left [- 1 / 2, 0, 1 / 2, 1] (- (1 / 2)) + nl < 4" by simp
  from c4 have "0 \<le> int (searchsorted_right [- 1 / 2, 0, 1 / 2, 1] (1 / 2)) - int nu - 1"
    by blast
  then have d4: "nu < searchsorted_right [- 1 / 2, 0, 1 / 2, 1] (1 / 2)" by linarith
  from c1 c2 d3 d4 have e: "\<exists>n_lower_edge n_upper_edge.
        count_lower_edge [- 1 / 2, 0, 1 / 2, 1] (1 / 2)
          (searchsorted_left [- 1 / 2, 0, 1 / 2, 1] (- (1 / 2))) 0 = Inr n_lower_edge
      \<and> count_upper_edge [- 1 / 2, 0, 1 / 2, 1] (1 / 2)
          (searchsorted_right [- 1 / 2, 0, 1 / 2, 1] (1 / 2)) 0 = Inr n_upper_edge
      \<and> searchsorted_left [- 1 / 2, 0, 1 / 2, 1] (- (1 / 2)) + n_lower_edge < 4
      \<and> n_upper_edge < searchsorted_right [- 1 / 2, 0, 1 / 2, 1] (1 / 2)"
    by blast
  show ?thesis by (intro conjI) (rule h1 h2 h3 h4 v e)+
qed

text \<open>
  C2. The three-branch policy with a \<open>RuntimeError\<close> in every remaining case is what the
  docstring promises, but the two counting loops have no bound. When no eigenvalue lies
  above \<open>-edge\<close> the first loop runs off the end of the array; when none lies below
  \<open>edge\<close> the second loop wraps around to the end of the array and runs off its start.
  For the single eigenvalue \<open>-1/2\<close> with edge \<open>1/2\<close> and one requested value the policy
  selects the eigenvalue (no interior value, one value on the lower edge); the function
  raises \<open>IndexError\<close>. The same happens for the single eigenvalue \<open>1/2\<close>.
\<close>

theorem first_brillouin_zone_edge_only:
  "first_brillouin_zone [- 1 / 2] [[1 :: complex]] 1 (1 / 2) = Inl IndexError
   \<and> first_brillouin_zone [1 / 2] [[1 :: complex]] 1 (1 / 2) = Inl IndexError"
  by code_simp

subsection \<open>assemble_k\<close>

declare place_blocks.simps [simp del]

lemma fold_err_pure:
  assumes "\<And>x s. x \<in> set xs \<Longrightarrow> f x s = Inr (g x s)"
  shows "fold_err f xs s = Inr (fold g xs s)"
  using assms by (induction xs arbitrary: s) simp_all

lemma length_set_block: "length (set_block block m d nb r c) = length m"
  by (simp add: set_block_def)

lemma length_set_block_row:
  "i < length m \<Longrightarrow> length (set_block block m d nb r c ! i) = length (m ! i)"
  by (simp add: set_block_def)

lemma set_block_nth:
  assumes "i < length m" "j < length (m ! i)"
  shows "set_block block m d nb r c ! i ! j =
     (if r * d \<le> i \<and> i < r * d + d \<and> c * d \<le> j \<and> j < c * d + d
      then block ! (i - r * d) ! (j - c * d) else m ! i ! j)"
  using assms by (simp add: set_block_def)

lemma squareD: "square n m \<Longrightarrow> length m = n" "square n m \<Longrightarrow> i < n \<Longrightarrow> length (m ! i) = n"
  by (auto simp: square_def list_all_length)

lemma square_set_block: "square n m \<Longrightarrow> square n (set_block block m d nb r c)"
  by (simp add: square_def list_all_length length_set_block length_set_block_row)

lemma square_zeros: "square n (replicate n (replicate n 0))"
  by (simp add: square_def list_all_length)

lemma square_place_blocks:
  "square K k \<Longrightarrow> square K (place_blocks n current d nz omega stop_row stop_col row col k)"
proof (induction n current d nz omega stop_row stop_col row col k rule: place_blocks.induct)
  case (1 n current d nz omega stop_row stop_col row col k)
  show ?case
  proof (cases "row \<le> stop_row \<and> col \<le> stop_col")
    case True
    with "1.IH" "1.prems" show ?thesis
      by (subst place_blocks.simps) (simp add: square_set_block)
  next
    case False
    with "1.prems" show ?thesis by (subst place_blocks.simps) auto
  qed
qed

lemma block_index:
  fixes R r a d :: nat
  assumes "a < d"
  shows "(r * d \<le> R * d + a \<and> R * d + a < r * d + d) \<longleftrightarrow> R = r"
proof
  assume h: "r * d \<le> R * d + a \<and> R * d + a < r * d + d"
  show "R = r"
  proof (rule ccontr)
    assume "R \<noteq> r"
    then consider "R < r" | "r < R" by linarith
    then show False
    proof cases
      case 1
      then have "Suc R \<le> r" by simp
      then have "Suc R * d \<le> r * d" by (rule mult_le_mono1)
      with h assms show False by simp
    next
      case 2
      then have "Suc r \<le> R" by simp
      then have "Suc r * d \<le> R * d" by (rule mult_le_mono1)
      with h show False by simp
    qed
  qed
next
  assume "R = r"
  with assms show "r * d \<le> R * d + a \<and> R * d + a < r * d + d" by simp
qed

lemma block_entry_bound:
  fixes R nz a d :: nat
  assumes "R < nz" "a < d"
  shows "R * d + a < d * nz"
proof -
  from assms(1) have "Suc R \<le> nz" by simp
  then have "Suc R * d \<le> nz * d" by (rule mult_le_mono1)
  with assms(2) show ?thesis by (simp add: mult.commute)
qed

lemma add_diagonal_nth:
  "a < d \<Longrightarrow> b < d \<Longrightarrow> add_diagonal current d c ! a ! b = current ! a ! b + (if a = b then c else 0)"
  by (simp add: add_diagonal_def)


lemma set_block_entry:
  assumes sq: "square (d * nz) k" and R: "R < nz" "C < nz" and ab: "a < d" "b < d"
  shows "set_block block k d nz r c ! (R * d + a) ! (C * d + b) =
     (if R = r \<and> C = c then block ! a ! b else k ! (R * d + a) ! (C * d + b))"
proof -
  have i: "R * d + a < d * nz" and j: "C * d + b < d * nz"
    using R ab by (simp_all add: block_entry_bound)
  from i have i': "R * d + a < length k" using squareD(1) [OF sq] by simp
  from j have j': "C * d + b < length (k ! (R * d + a))" using squareD(2) [OF sq i] by simp
  have "set_block block k d nz r c ! (R * d + a) ! (C * d + b) =
     (if (r * d \<le> R * d + a \<and> R * d + a < r * d + d) \<and> (c * d \<le> C * d + b \<and> C * d + b < c * d + d)
      then block ! (R * d + a - r * d) ! (C * d + b - c * d) else k ! (R * d + a) ! (C * d + b))"
    using set_block_nth [OF i' j'] by simp
  also have "\<dots> = (if R = r \<and> C = c then block ! a ! b else k ! (R * d + a) ! (C * d + b))"
    unfolding block_index [OF ab(1)] block_index [OF ab(2)] by simp
  finally show ?thesis .
qed

lemma place_blocks_nth:
  assumes "square (d * nz) k" "0 \<le> row" "0 \<le> col" "R < nz" "C < nz" "a < d" "b < d"
  shows "place_blocks n current d nz omega stop_row stop_col row col k ! (R * d + a) ! (C * d + b) =
     (if row \<le> int R \<and> int R \<le> stop_row \<and> col \<le> int C \<and> int C \<le> stop_col
         \<and> int R - row = int C - col
      then (if n = 0 then add_diagonal current d (of_real (omega * i_to_n (int R) nz))
            else current) ! a ! b
      else k ! (R * d + a) ! (C * d + b))"
  using assms
proof (induction n current d nz omega stop_row stop_col row col k rule: place_blocks.induct)
  case (1 n current d nz omega stop_row stop_col row col k)
  let ?blk = "\<lambda>r. if n = 0 then add_diagonal current d (of_real (omega * i_to_n r nz)) else current"
  let ?k' = "set_block (?blk row) k d nz (nat row) (nat col)"
  show ?case
  proof (cases "row \<le> stop_row \<and> col \<le> stop_col")
    case True
    have unfold: "place_blocks n current d nz omega stop_row stop_col row col k
        = place_blocks n current d nz omega stop_row stop_col (row + 1) (col + 1) ?k'"
      using True by (subst place_blocks.simps) auto
    have sq': "square (d * nz) ?k'" using "1.prems"(1) by (rule square_set_block)
    have k'eq: "(if n = 0
           then set_block (add_diagonal current d (of_real (omega * i_to_n row nz)))
                  k d nz (nat row) (nat col)
           else set_block current k d nz (nat row) (nat col)) = ?k'" by simp
    have IH: "place_blocks n current d nz omega stop_row stop_col (row + 1) (col + 1) ?k'
          ! (R * d + a) ! (C * d + b) =
       (if row + 1 \<le> int R \<and> int R \<le> stop_row \<and> col + 1 \<le> int C \<and> int C \<le> stop_col
           \<and> int R - (row + 1) = int C - (col + 1)
        then ?blk (int R) ! a ! b
        else ?k' ! (R * d + a) ! (C * d + b))"
      using "1.IH" [OF True, unfolded k'eq, OF sq'] "1.prems" by simp
    have entry: "?k' ! (R * d + a) ! (C * d + b) =
       (if R = nat row \<and> C = nat col then ?blk row ! a ! b else k ! (R * d + a) ! (C * d + b))"
      using "1.prems" by (intro set_block_entry) simp_all
    show ?thesis
    proof (cases "R = nat row \<and> C = nat col")
      case here: True
      with "1.prems" have "int R = row" "int C = col" by simp_all
      with True here show ?thesis unfolding unfold IH entry by simp
    next
      case False
      then have ne: "\<not> (int R = row \<and> int C = col)" using "1.prems" by auto
      have e2: "?k' ! (R * d + a) ! (C * d + b) = k ! (R * d + a) ! (C * d + b)"
        by (simp only: entry False if_False)
      have cond: "(row \<le> int R \<and> int R \<le> stop_row \<and> col \<le> int C \<and> int C \<le> stop_col
           \<and> int R - row = int C - col)
        \<longleftrightarrow> (row + 1 \<le> int R \<and> int R \<le> stop_row \<and> col + 1 \<le> int C \<and> int C \<le> stop_col
           \<and> int R - (row + 1) = int C - (col + 1))"
        using ne by auto
      show ?thesis by (simp only: unfold IH e2 cond)
    qed
  next
    case False
    then have stop: "place_blocks n current d nz omega stop_row stop_col row col k = k"
      by (subst place_blocks.simps) auto
    from False have no: "(row \<le> int R \<and> int R \<le> stop_row \<and> col \<le> int C \<and> int C \<le> stop_col
         \<and> int R - row = int C - col) \<longleftrightarrow> False" by auto
    show ?thesis by (simp only: stop no if_False)
  qed
qed


lemma diagonal_pass_square: "square K k \<Longrightarrow> square K (diagonal_pass hf nz omega n k)"
  unfolding diagonal_pass_def by (rule square_place_blocks)

lemma diagonal_pass_nth:
  assumes "square (shape1 hf * nz) k" "R < nz" "C < nz" "a < shape1 hf" "b < shape1 hf"
  shows "diagonal_pass hf nz omega n k ! (R * shape1 hf + a) ! (C * shape1 hf + b) =
     (if int R - int C = n
      then (if n = 0
            then add_diagonal (hf ! nat (n_to_i n (length hf))) (shape1 hf)
                   (of_real (omega * i_to_n (int R) nz))
            else hf ! nat (n_to_i n (length hf))) ! a ! b
      else k ! (R * shape1 hf + a) ! (C * shape1 hf + b))"
proof -
  have cond: "(max 0 n \<le> int R \<and> int R \<le> min (int nz - 1 + n) (int nz - 1)
        \<and> max 0 (- n) \<le> int C \<and> int C \<le> min (int nz - 1 - n) (int nz - 1)
        \<and> int R - max 0 n = int C - max 0 (- n)) \<longleftrightarrow> int R - int C = n"
    using assms(2,3) by auto
  show ?thesis
    unfolding diagonal_pass_def
    by (subst place_blocks_nth [OF assms(1) _ _ assms(2-5)]) (simp_all only: cond max.cobounded1)
qed

lemma fold_diagonal_pass_square:
  "square K k \<Longrightarrow> square K (fold (diagonal_pass hf nz omega) ns k)"
  by (induction ns arbitrary: k) (simp_all add: diagonal_pass_square)

lemma fold_diagonal_pass_nth:
  assumes "distinct ns" "square (shape1 hf * nz) k" "R < nz" "C < nz" "a < shape1 hf" "b < shape1 hf"
  shows "fold (diagonal_pass hf nz omega) ns k ! (R * shape1 hf + a) ! (C * shape1 hf + b) =
     (if int R - int C \<in> set ns
      then (if int R - int C = 0
            then add_diagonal (hf ! nat (n_to_i 0 (length hf))) (shape1 hf)
                   (of_real (omega * i_to_n (int R) nz))
            else hf ! nat (n_to_i (int R - int C) (length hf))) ! a ! b
      else k ! (R * shape1 hf + a) ! (C * shape1 hf + b))"
  using assms(1,2)
proof (induction ns arbitrary: k)
  case Nil
  then show ?case by simp
next
  case (Cons n ns)
  let ?k' = "diagonal_pass hf nz omega n k"
  have sq: "square (shape1 hf * nz) ?k'" using Cons.prems(2) by (rule diagonal_pass_square)
  from Cons.prems(1) have d: "distinct ns" "n \<notin> set ns" by simp_all
  note IH = Cons.IH [OF d(1) sq]
  note one = diagonal_pass_nth [OF Cons.prems(2) assms(3-6), of omega n]
  show ?case
  proof (cases "int R - int C \<in> set ns")
    case True
    with d(2) have "int R - int C \<noteq> n" by auto
    with True show ?thesis by (simp add: IH)
  next
    case False
    show ?thesis
    proof (cases "int R - int C = n")
      case True
      with False show ?thesis by (simp add: IH one)
    next
      case ne: False
      with False show ?thesis by (simp add: IH one)
    qed
  qed
qed

lemma harmonic_index:
  assumes "n \<in> set [- ((int (length hf) - 1) div 2)..(int (length hf) - 1) div 2]"
  shows "py_get hf (n_to_i n (length hf)) = Inr (hf ! nat (n_to_i n (length hf)))"
proof -
  from assms have "0 \<le> n + (int (length hf) - 1) div 2"
    and "n + (int (length hf) - 1) div 2 < int (length hf)" by auto
  then show ?thesis by (simp add: py_get_def n_to_i_def)
qed

lemma assemble_k_fold:
  "assemble_k hf nz omega =
     Inr (fold (diagonal_pass hf nz omega)
            [- ((int (length hf) - 1) div 2)..(int (length hf) - 1) div 2]
            (replicate (shape1 hf * nz) (replicate (shape1 hf * nz) 0)))"
  unfolding assemble_k_def Let_def
  by (rule fold_err_pure) (simp add: harmonic_index diagonal_pass_def)



lemma zeros_nth: "i < n \<Longrightarrow> j < n \<Longrightarrow> replicate n (replicate n (0 :: complex)) ! i ! j = 0"
  by simp

lemma assemble_k_entry:
  assumes nc: "length hf = 2 * max_harmonic + 1"
    and R: "R < nz" "C < nz" and ab: "a < shape1 hf" "b < shape1 hf"
  shows "fold (diagonal_pass hf nz omega)
            [- ((int (length hf) - 1) div 2)..(int (length hf) - 1) div 2]
            (replicate (shape1 hf * nz) (replicate (shape1 hf * nz) 0))
          ! (R * shape1 hf + a) ! (C * shape1 hf + b) =
     (if \<bar>int R - int C\<bar> \<le> int max_harmonic
      then hf ! nat (int R - int C + int max_harmonic) ! a ! b
           + (if R = C \<and> a = b then of_real (omega * i_to_n (int R) nz) else 0)
      else 0)"
proof -
  let ?d = "shape1 hf"
  have hmax: "(int (length hf) - 1) div 2 = int max_harmonic" using nc by simp
  have mem: "int R - int C \<in> set [- int max_harmonic..int max_harmonic]
      \<longleftrightarrow> \<bar>int R - int C\<bar> \<le> int max_harmonic" by auto
  have idx: "n_to_i n (length hf) = n + int max_harmonic" for n
    by (simp add: n_to_i_def hmax)
  have i: "R * ?d + a < ?d * nz" and j: "C * ?d + b < ?d * nz"
    using R ab by (simp_all add: block_entry_bound)
  have z: "replicate (?d * nz) (replicate (?d * nz) (0 :: complex)) ! (R * ?d + a) ! (C * ?d + b) = 0"
    using i j by (rule zeros_nth)
  have "fold (diagonal_pass hf nz omega) [- int max_harmonic..int max_harmonic]
            (replicate (?d * nz) (replicate (?d * nz) 0))
          ! (R * ?d + a) ! (C * ?d + b) =
     (if \<bar>int R - int C\<bar> \<le> int max_harmonic
      then (if int R - int C = 0
            then add_diagonal (hf ! nat (0 + int max_harmonic)) ?d (of_real (omega * i_to_n (int R) nz))
            else hf ! nat (int R - int C + int max_harmonic)) ! a ! b
      else 0)"
    by (subst fold_diagonal_pass_nth [OF _ square_zeros R ab]) (simp_all only: distinct_upto mem idx z)
  also have "\<dots> = (if \<bar>int R - int C\<bar> \<le> int max_harmonic
      then hf ! nat (int R - int C + int max_harmonic) ! a ! b
           + (if R = C \<and> a = b then of_real (omega * i_to_n (int R) nz) else 0)
      else 0)"
    using ab by (auto simp: add_diagonal_nth)
  finally show ?thesis unfolding hmax .
qed

lemma i_to_n_odd:
  assumes "odd nz"
  shows "i_to_n i nz = of_int (i - (int nz - 1) div 2)"
proof -
  from assms obtain m where "nz = 2 * m + 1" by (auto elim: oddE)
  then show ?thesis by (simp add: i_to_n_def)
qed

text \<open>
  C4. For a Hamiltonian tensor with \<open>2 \<cdot> max_harmonic + 1\<close> components and an odd number of
  zones, \<open>assemble_k\<close> returns a square matrix of size \<open>dimension \<cdot> n_zones\<close> whose block
  \<open>(row, col)\<close> is the Fourier component of the harmonic \<open>row - col\<close> (the component at index
  \<open>row - col + max_harmonic\<close>) when \<open>|row - col| \<le> max_harmonic\<close>, with
  \<open>frequency \<cdot> (row - (n_zones - 1) / 2)\<close> added on the diagonal of the diagonal blocks, and the
  zero block otherwise. The bound \<open>n_zones \<ge> n_components\<close> of the claim is not needed.
\<close>

theorem assemble_k_blocks:
  assumes "length hf = 2 * max_harmonic + 1" "odd nz"
  shows "\<exists>k. assemble_k hf nz omega = Inr k \<and> square (shape1 hf * nz) k \<and>
     (\<forall>row<nz. \<forall>col<nz. \<forall>a<shape1 hf. \<forall>b<shape1 hf.
        k ! (row * shape1 hf + a) ! (col * shape1 hf + b) =
        (if \<bar>int row - int col\<bar> \<le> int max_harmonic
         then hf ! nat (int row - int col + int max_harmonic) ! a ! b
              + (if row = col \<and> a = b
                 then of_real (omega * of_int (int row - (int nz - 1) div 2)) else 0)
         else 0))"
proof -
  let ?k = "fold (diagonal_pass hf nz omega)
            [- ((int (length hf) - 1) div 2)..(int (length hf) - 1) div 2]
            (replicate (shape1 hf * nz) (replicate (shape1 hf * nz) 0))"
  have r: "assemble_k hf nz omega = Inr ?k" by (rule assemble_k_fold)
  have sq: "square (shape1 hf * nz) ?k"
    by (rule fold_diagonal_pass_square) (rule square_zeros)
  have e: "\<forall>row<nz. \<forall>col<nz. \<forall>a<shape1 hf. \<forall>b<shape1 hf.
        ?k ! (row * shape1 hf + a) ! (col * shape1 hf + b) =
        (if \<bar>int row - int col\<bar> \<le> int max_harmonic
         then hf ! nat (int row - int col + int max_harmonic) ! a ! b
              + (if row = col \<and> a = b
                 then of_real (omega * of_int (int row - (int nz - 1) div 2)) else 0)
         else 0)"
  proof (intro allI impI)
    fix row col a b
    assume "row < nz" "col < nz" "a < shape1 hf" "b < shape1 hf"
    from assemble_k_entry [OF assms(1) this, of omega]
    show "?k ! (row * shape1 hf + a) ! (col * shape1 hf + b) =
        (if \<bar>int row - int col\<bar> \<le> int max_harmonic
         then hf ! nat (int row - int col + int max_harmonic) ! a ! b
              + (if row = col \<and> a = b
                 then of_real (omega * of_int (int row - (int nz - 1) div 2)) else 0)
         else 0)"
      by (simp only: i_to_n_odd [OF assms(2)])
  qed
  from r sq e show ?thesis by blast
qed


lemma test_goalk_table:
  "list_all (\<lambda>i. list_all (\<lambda>j.
     (if \<bar>int (i div 2) - int (j div 2)\<bar> \<le> int 1
      then test_hf ! nat (int (i div 2) - int (j div 2) + int 1) ! (i mod 2) ! (j mod 2)
           + (if i div 2 = j div 2 \<and> i mod 2 = j mod 2
              then of_real (1 * of_int (int (i div 2) - (int 5 - 1) div 2)) else 0)
      else 0) = test_goalk ! i ! j) [0..<10]) [0..<10]"
  by code_simp

lemma test_goalk_square: "square 10 test_goalk"
  by (simp add: square_def test_goalk_def)

theorem assemble_k_blocks_witness:
  "length test_hf = 2 * 1 + 1 \<and> odd (5 :: nat) \<and> assemble_k test_hf 5 1 = Inr test_goalk"
proof -
  have l: "length test_hf = 2 * 1 + 1" by (simp add: test_hf_def)
  have o: "odd (5 :: nat)" by simp
  have d: "shape1 test_hf = 2" by (simp add: test_hf_def shape1_def)
  from assemble_k_blocks [OF l o, of 1] obtain k where
    k: "assemble_k test_hf 5 1 = Inr k" and sq: "square (shape1 test_hf * 5) k" and
    e: "\<forall>row<5. \<forall>col<5. \<forall>a<shape1 test_hf. \<forall>b<shape1 test_hf.
        k ! (row * shape1 test_hf + a) ! (col * shape1 test_hf + b) =
        (if \<bar>int row - int col\<bar> \<le> int 1
         then test_hf ! nat (int row - int col + int 1) ! a ! b
              + (if row = col \<and> a = b
                 then of_real (1 * of_int (int row - (int 5 - 1) div 2)) else 0)
         else 0)"
    by blast
  from sq have sq10: "square 10 k" by (simp add: d)
  have "k = test_goalk"
  proof (rule nth_equalityI)
    show "length k = length test_goalk"
      using squareD(1) [OF sq10] squareD(1) [OF test_goalk_square] by simp
  next
    fix i assume "i < length k"
    then have i: "i < 10" using squareD(1) [OF sq10] by simp
    show "k ! i = test_goalk ! i"
    proof (rule nth_equalityI)
      show "length (k ! i) = length (test_goalk ! i)"
        using squareD(2) [OF sq10 i] squareD(2) [OF test_goalk_square i] by simp
    next
      fix j assume "j < length (k ! i)"
      then have j: "j < 10" using squareD(2) [OF sq10 i] by simp
      from i j have b: "i div 2 < 5" "j div 2 < 5" "i mod 2 < shape1 test_hf" "j mod 2 < shape1 test_hf"
        by (simp_all add: d)
      have "k ! i ! j = k ! (i div 2 * shape1 test_hf + i mod 2) ! (j div 2 * shape1 test_hf + j mod 2)"
        by (simp add: d)
      also note e [rule_format, OF b]
      also have "(if \<bar>int (i div 2) - int (j div 2)\<bar> \<le> int 1
         then test_hf ! nat (int (i div 2) - int (j div 2) + int 1) ! (i mod 2) ! (j mod 2)
              + (if i div 2 = j div 2 \<and> i mod 2 = j mod 2
                 then of_real (1 * of_int (int (i div 2) - (int 5 - 1) div 2)) else 0)
         else 0) = test_goalk ! i ! j"
        using test_goalk_table i j unfolding list_all_iff by simp
      finally show "k ! i ! j = test_goalk ! i ! j" .
    qed
  qed
  with k have v: "assemble_k test_hf 5 1 = Inr test_goalk" by simp
  from l o v show ?thesis by blast
qed




subsection \<open>current_floquet_kets at time 0\<close>

lemma reshape3_shape:
  assumes "reshape3 flat d0 d1 d2 = Inr t"
  shows "length t = d0"
    and "i < d0 \<Longrightarrow> length (t ! i) = d1"
    and "i < d0 \<Longrightarrow> j < d1 \<Longrightarrow> length (t ! i ! j) = d2"
proof -
  from assms have len: "length flat = d0 * d1 * d2"
    and t: "t = map (\<lambda>i. map (\<lambda>j. take d2 (drop ((i * d1 + j) * d2) flat)) [0..<d1]) [0..<d0]"
    by (auto simp: reshape3_def split: if_splits)
  show "length t = d0" by (simp add: t)
  show "length (t ! i) = d1" if "i < d0" using that by (simp add: t)
  show "length (t ! i ! j) = d2" if ij: "i < d0" "j < d1"
  proof -
    from ij have "i * d1 + j + 1 \<le> d0 * d1"
    proof -
      from ij(1) have "Suc i * d1 \<le> d0 * d1" by (intro mult_le_mono1) simp
      with ij(2) show ?thesis by simp
    qed
    then have "(i * d1 + j + 1) * d2 \<le> d0 * d1 * d2" by (rule mult_le_mono1)
    then have "(i * d1 + j) * d2 + d2 \<le> length flat" by (simp add: len algebra_simps)
    with ij show ?thesis by (simp add: t)
  qed
qed

lemma diagonalise_shape:
  assumes "diagonalise eig eigs gs k h freq decimals = Inr (vals, vecs)"
  shows "0 < h" and "length vecs = h"
    and "i < h \<Longrightarrow> length (vecs ! i) = kshape0 k div h"
    and "i < h \<Longrightarrow> j < kshape0 k div h \<Longrightarrow> length (vecs ! i ! j) = h"
proof -
  from assms obtain flat where h: "0 < h" and r: "reshape3 flat h (kshape0 k div h) h = Inr vecs"
    unfolding diagonalise_def Let_def
    by (auto split: sum.splits prod.splits if_splits)
  show "0 < h" by (rule h)
  show "length vecs = h" by (rule reshape3_shape(1) [OF r])
  show "i < h \<Longrightarrow> length (vecs ! i) = kshape0 k div h" by (rule reshape3_shape(2) [OF r])
  show "i < h \<Longrightarrow> j < kshape0 k div h \<Longrightarrow> length (vecs ! i ! j) = h"
    by (rule reshape3_shape(3) [OF r])
qed









subsection \<open>integral_factors\<close>






























subsection \<open>diagonalise\<close>

lemma slice_between_window:
  assumes "a + n \<le> length xs"
  shows "slice_between xs (int a) (int a + int n) = take n (drop a xs)"
proof -
  have "slice_bound (length xs) (int a) = a" using assms by (simp add: slice_bound_def)
  moreover have "slice_bound (length xs) (int a + int n) = a + n"
    using assms by (simp add: slice_bound_def nat_add_distrib)
  ultimately show ?thesis by (simp add: slice_between_def py_slice_def)
qed

lemma first_brillouin_zone_result:
  assumes "first_brillouin_zone ev vecs n edge = Inr (ev', vs')"
  shows "\<exists>a. a + n \<le> length ev
     \<and> searchsorted_left (map (\<lambda>i. ev ! i) (argsort ev)) (- edge) \<le> a
     \<and> a + n \<le> searchsorted_right (map (\<lambda>i. ev ! i) (argsort ev)) edge
     \<and> ev' = take n (drop a (map (\<lambda>i. ev ! i) (argsort ev)))
     \<and> vs' = take n (drop a (map (\<lambda>i. vecs ! i) (argsort ev)))
     \<and> \<not> list_ex (\<lambda>i. length vecs \<le> i) (argsort ev)"
proof -
  let ?S = "map (\<lambda>i. ev ! i) (argsort ev)" and ?V = "map (\<lambda>i. vecs ! i) (argsort ev)"
  let ?lower = "searchsorted_left ?S (- edge)" and ?upper = "searchsorted_right ?S edge"
  have len: "length ?S = length ev" "length ?V = length ev" by (simp_all add: argsort_def)
  have up: "?upper \<le> length ev" using searchsorted_right_le [of ?S edge] len by simp
  from assms have ok: "\<not> list_ex (\<lambda>i. length vecs \<le> i) (argsort ev)"
    unfolding first_brillouin_zone_def Let_def by (auto split: if_splits)
  from assms ok obtain nl nu where
    r: "(let n_not_on_edge = (int ?upper - int nu) - (int ?lower + int nl)
          in if n_not_on_edge = int n then
               Inr (slice_between ?S (int ?lower + int nl) (int ?upper - int nu),
                    slice_between ?V (int ?lower + int nl) (int ?upper - int nu))
             else if n_not_on_edge + int nl = int n then
               Inr (slice_between ?S (int ?lower) (int ?upper - int nu),
                    slice_between ?V (int ?lower) (int ?upper - int nu))
             else if n_not_on_edge + int nu = int n then
               Inr (slice_between ?S (int ?lower + int nl) (int ?upper),
                    slice_between ?V (int ?lower + int nl) (int ?upper))
             else Inl RuntimeError) = Inr (ev', vs')"
    unfolding first_brillouin_zone_def Let_def by (auto split: if_splits sum.splits)
  have window: "\<exists>a. a + n \<le> length ev \<and> ?lower \<le> a \<and> a + n \<le> ?upper
       \<and> ev' = take n (drop a ?S) \<and> vs' = take n (drop a ?V)"
    if lo: "int ?lower \<le> lo" and hi: "lo + int n \<le> int ?upper"
      and e: "ev' = slice_between ?S lo (lo + int n)" "vs' = slice_between ?V lo (lo + int n)"
    for lo
  proof -
    define a where "a = nat lo"
    from lo have a: "lo = int a" by (simp add: a_def)
    from hi up have b: "a + n \<le> length ev" unfolding a by simp
    have "ev' = take n (drop a ?S)" "vs' = take n (drop a ?V)"
      unfolding e a using b len by (simp_all only: slice_between_window)
    moreover from lo hi have "?lower \<le> a" "a + n \<le> ?upper" unfolding a by simp_all
    ultimately show ?thesis using b by blast
  qed
  let ?nn = "(int ?upper - int nu) - (int ?lower + int nl)"
  consider (interior) "?nn = int n"
    | (lower_edge) "?nn \<noteq> int n" "?nn + int nl = int n"
    | (upper_edge) "?nn \<noteq> int n" "?nn + int nl \<noteq> int n" "?nn + int nu = int n"
    | (none) "?nn \<noteq> int n" "?nn + int nl \<noteq> int n" "?nn + int nu \<noteq> int n"
    by blast
  then have "\<exists>a. a + n \<le> length ev \<and> ?lower \<le> a \<and> a + n \<le> ?upper
       \<and> ev' = take n (drop a ?S) \<and> vs' = take n (drop a ?V)"
  proof cases
    case interior
    then have eq: "int ?upper - int nu = (int ?lower + int nl) + int n" by simp
    from r interior have "ev' = slice_between ?S (int ?lower + int nl) ((int ?lower + int nl) + int n)"
      "vs' = slice_between ?V (int ?lower + int nl) ((int ?lower + int nl) + int n)"
      unfolding Let_def eq by simp_all
    then show ?thesis using eq by (intro window [of "int ?lower + int nl"]) simp_all
  next
    case lower_edge
    then have eq: "int ?upper - int nu = int ?lower + int n" by simp
    from r lower_edge have "ev' = slice_between ?S (int ?lower) (int ?lower + int n)"
      "vs' = slice_between ?V (int ?lower) (int ?lower + int n)"
      unfolding Let_def eq by simp_all
    then show ?thesis using eq by (intro window [of "int ?lower"]) simp_all
  next
    case upper_edge
    then have eq: "int ?upper = (int ?lower + int nl) + int n" by simp
    from r upper_edge have "ev' = slice_between ?S (int ?lower + int nl) ((int ?lower + int nl) + int n)"
      "vs' = slice_between ?V (int ?lower + int nl) ((int ?lower + int nl) + int n)"
      unfolding Let_def eq by simp_all
    then show ?thesis using eq by (intro window [of "int ?lower + int nl"]) simp_all
  next
    case none
    with r show ?thesis unfolding Let_def by simp
  qed
  with ok show ?thesis by blast
qed


lemma fold_assign:
  assumes "length idxs = length new" "distinct idxs"
  shows "length (fold (\<lambda>(i, r) rows. rows[i := r]) (zip idxs new) rows) = length rows
     \<and> (\<forall>q. q \<notin> set idxs \<longrightarrow> fold (\<lambda>(i, r) rows. rows[i := r]) (zip idxs new) rows ! q = rows ! q)
     \<and> (\<forall>k<length idxs. idxs ! k < length rows \<longrightarrow>
           fold (\<lambda>(i, r) rows. rows[i := r]) (zip idxs new) rows ! (idxs ! k) = new ! k)"
  using assms
proof (induction idxs new arbitrary: rows rule: list_induct2)
  case Nil
  then show ?case by simp
next
  case (Cons i idxs r new)
  let ?F = "\<lambda>rows. fold (\<lambda>(i, r) rows. rows[i := r]) (zip idxs new) rows"
  from Cons.prems have d: "distinct idxs" "i \<notin> set idxs" by simp_all
  note IH = Cons.IH [OF d(1), of "rows[i := r]"]
  have step: "fold (\<lambda>(i, r) rows. rows[i := r]) (zip (i # idxs) (r # new)) rows = ?F (rows[i := r])"
    by simp
  have 1: "length (?F (rows[i := r])) = length rows" using IH by simp
  have 2: "?F (rows[i := r]) ! q = rows ! q" if "q \<notin> set (i # idxs)" for q
  proof -
    from that have "q \<notin> set idxs" "q \<noteq> i" by simp_all
    with IH show ?thesis by simp
  qed
  have 3: "?F (rows[i := r]) ! ((i # idxs) ! k) = (r # new) ! k"
    if "k < length (i # idxs)" "(i # idxs) ! k < length rows" for k
  proof (cases k)
    case 0
    with d(2) IH that show ?thesis by simp
  next
    case (Suc k')
    with that have "k' < length idxs" "idxs ! k' < length (rows[i := r])" by simp_all
    with IH Suc show ?thesis by simp
  qed
  show ?case unfolding step using 1 2 3 by blast
qed

lemma fancy_set_rows:
  assumes "gs_keeps_shape gs" "distinct g" "\<forall>i\<in>set g. i < length rows"
  shows "\<exists>R. fancy_set rows g (gs (fancy_get rows g)) = Inr R
     \<and> length R = length rows
     \<and> (\<forall>q. q \<notin> set g \<longrightarrow> R ! q = rows ! q)
     \<and> (\<forall>k<length g. R ! (g ! k) = gs (fancy_get rows g) ! k)"
proof -
  let ?new = "gs (fancy_get rows g)"
  from assms(1) have len: "length g = length ?new"
    by (simp add: gs_keeps_shape_def fancy_get_def)
  note fa = fold_assign [OF len assms(2), of rows]
  have "fancy_set rows g ?new = Inr (fold (\<lambda>(i, r) rows. rows[i := r]) (zip g ?new) rows)"
    using len by (simp add: fancy_set_def)
  moreover have "\<forall>k<length g. g ! k < length rows" using assms(3) by simp
  ultimately show ?thesis using fa by blast
qed

lemma orthogonalise_groups:
  assumes gs: "gs_keeps_shape gs"
    and G: "sorted_wrt (\<lambda>g h. \<forall>x\<in>set g. \<forall>y\<in>set h. x < y) G"
      "\<forall>g\<in>set G. distinct g \<and> (\<forall>i\<in>set g. i < length rows)"
  shows "\<exists>R. fold_err (\<lambda>g rows. fancy_set rows g (gs (fancy_get rows g))) G rows = Inr R
     \<and> length R = length rows
     \<and> (\<forall>q. (\<forall>g\<in>set G. q \<notin> set g) \<longrightarrow> R ! q = rows ! q)
     \<and> (\<forall>g\<in>set G. \<forall>k<length g. R ! (g ! k) = gs (fancy_get rows g) ! k)"
  using G
proof (induction G arbitrary: rows)
  case Nil
  then show ?case by simp
next
  case (Cons g G)
  from Cons.prems have g: "distinct g" "\<forall>i\<in>set g. i < length rows" by simp_all
  from fancy_set_rows [OF gs g] obtain R1 where
    R1: "fancy_set rows g (gs (fancy_get rows g)) = Inr R1" "length R1 = length rows"
      "\<forall>q. q \<notin> set g \<longrightarrow> R1 ! q = rows ! q"
      "\<forall>k<length g. R1 ! (g ! k) = gs (fancy_get rows g) ! k"
    by blast
  from Cons.prems have sorted: "sorted_wrt (\<lambda>g h. \<forall>x\<in>set g. \<forall>y\<in>set h. x < y) G"
    and later: "\<forall>h\<in>set G. \<forall>x\<in>set g. \<forall>y\<in>set h. x < y"
    and valid: "\<forall>h\<in>set G. distinct h \<and> (\<forall>i\<in>set h. i < length R1)"
    by (simp_all add: R1(2))
  from Cons.IH [OF sorted valid] obtain R where
    R: "fold_err (\<lambda>g rows. fancy_set rows g (gs (fancy_get rows g))) G R1 = Inr R"
      "length R = length R1"
      "\<forall>q. (\<forall>h\<in>set G. q \<notin> set h) \<longrightarrow> R ! q = R1 ! q"
      "\<forall>h\<in>set G. \<forall>k<length h. R ! (h ! k) = gs (fancy_get R1 h) ! k"
    by blast
  have disj: "q \<notin> set g" if "h \<in> set G" "q \<in> set h" for h q
    using later that by fastforce
  have same: "fancy_get R1 h = fancy_get rows h" if "h \<in> set G" for h
    unfolding fancy_get_def
  proof (rule map_cong [OF refl])
    fix q assume "q \<in> set h"
    with that have "q \<notin> set g" by (rule disj)
    with R1(3) show "R1 ! q = rows ! q" by blast
  qed
  have a: "fold_err (\<lambda>g rows. fancy_set rows g (gs (fancy_get rows g))) (g # G) rows = Inr R"
    using R1(1) R(1) by simp
  have b: "length R = length rows" using R(2) R1(2) by simp
  have c: "R ! q = rows ! q" if "\<forall>h\<in>set (g # G). q \<notin> set h" for q
  proof -
    from that have "q \<notin> set g" "\<forall>h\<in>set G. q \<notin> set h" by simp_all
    with R(3) R1(3) show ?thesis by simp
  qed
  have d: "R ! (h ! k) = gs (fancy_get rows h) ! k" if "h \<in> set (g # G)" "k < length h" for h k
  proof (cases "h = g")
    case True
    have "\<forall>h'\<in>set G. g ! k \<notin> set h'"
    proof
      fix h' assume h': "h' \<in> set G"
      show "g ! k \<notin> set h'"
      proof
        assume "g ! k \<in> set h'"
        with h' have "g ! k \<notin> set g" by (rule disj)
        with that True show False by simp
      qed
    qed
    with R(3) have "R ! (g ! k) = R1 ! (g ! k)" by blast
    with R1(4) that True show ?thesis by simp
  next
    case False
    with that have "h \<in> set G" by simp
    with R(4) that(2) same show ?thesis by simp
  qed
  from a b c d show ?case by blast
qed


lemma concat_chunks:
  "concat (map (\<lambda>j. take h (drop (j * h) xs)) [0..<m]) = take (m * h) xs"
proof (induction m)
  case 0
  then show ?case by simp
next
  case (Suc m)
  have "take (m * h + h) xs = take (m * h) xs @ take h (drop (m * h) xs)" by (rule take_add)
  with Suc show ?case by (simp add: add.commute)
qed

lemma length_concat_rect:
  assumes "\<forall>r\<in>set rows. length r = L"
  shows "length (concat rows) = length rows * L"
  using assms by (induction rows) simp_all

lemma concat_rect_row:
  assumes "\<forall>r\<in>set rows. length r = L" "p < length rows"
  shows "take L (drop (p * L) (concat rows)) = rows ! p"
  using assms
proof (induction rows arbitrary: p)
  case Nil
  then show ?case by simp
next
  case (Cons r rows)
  then have r: "length r = L" and rest: "\<forall>r\<in>set rows. length r = L" by simp_all
  show ?case
  proof (cases p)
    case 0
    with r show ?thesis by simp
  next
    case (Suc p')
    with Cons.prems have "p' < length rows" by simp
    with Cons.IH [OF rest] have "take L (drop (p' * L) (concat rows)) = rows ! p'" by simp
    with Suc r show ?thesis by (simp add: add.commute)
  qed
qed

lemma reshape3_rows:
  assumes r: "reshape3 (concat rows) h nz h = Inr vecs"
    and rows: "length rows = h" "\<forall>r\<in>set rows. length r = L" and h: "0 < h" and p: "p < h"
  shows "concat (vecs ! p) = rows ! p"
proof -
  let ?flat = "concat rows"
  from r have len: "length ?flat = h * nz * h"
    and v: "vecs = map (\<lambda>i. map (\<lambda>j. take h (drop ((i * nz + j) * h) ?flat)) [0..<nz]) [0..<h]"
    by (auto simp: reshape3_def split: if_splits)
  from len have "h * L = h * (nz * h)"
    using length_concat_rect [OF rows(2)] rows(1) by (simp add: mult.assoc)
  with h have L: "L = nz * h" by simp
  have "vecs ! p = map (\<lambda>j. take h (drop ((p * nz + j) * h) ?flat)) [0..<nz]"
    using p by (simp add: v)
  also have "\<dots> = map (\<lambda>j. take h (drop (j * h) (drop (p * L) ?flat))) [0..<nz]"
    by (simp add: L algebra_simps)
  finally have "concat (vecs ! p) = take (nz * h) (drop (p * L) ?flat)"
    by (simp only: concat_chunks)
  also have "\<dots> = rows ! p"
    unfolding L [symmetric] using rows(2) p rows(1) by (intro concat_rect_row) simp_all
  finally show ?thesis .
qed

lemma argsort_props:
  "length (argsort ev) = length ev" "distinct (argsort ev)" "set (argsort ev) = {0..<length ev}"
  "sorted (map (\<lambda>i. ev ! i) (argsort ev))"
  by (simp_all add: argsort_def)

lemma np_transpose_nth:
  "i < shape1 m \<Longrightarrow> np_transpose m ! i = solver_column m i"
  by (simp add: np_transpose_def solver_column_def)

lemma length_np_transpose: "length (np_transpose m) = shape1 m"
  by (simp add: np_transpose_def)

lemma diagonalise_parts:
  assumes "diagonalise eig eigs gs k h freq decimals = Inr (vals, vecs)"
  shows "\<exists>eigenvalues0 eigenvectors0 vs rows.
      (case k of Sparse m \<Rightarrow> eigs m (2 * h) | Dense m \<Rightarrow> eig m) = Inr (eigenvalues0, eigenvectors0)
    \<and> first_brillouin_zone (map (\<lambda>z. np_round (Re z) decimals) eigenvalues0)
         (np_transpose eigenvectors0) h (np_round (0.5 * freq) decimals) = Inr (vals, vs)
    \<and> orthogonalise gs vals vs = Inr rows
    \<and> 0 < h
    \<and> reshape3 (concat rows) h (kshape0 k div h) h = Inr vecs"
  using assms unfolding diagonalise_def Let_def
  by (auto split: sum.splits prod.splits if_splits)


lemma diagonalise_values:
  assumes fbz: "first_brillouin_zone (map (\<lambda>z. np_round (Re z) decimals) e0)
         (np_transpose v0) h edge = Inr (vals, vs)"
  shows "\<exists>sel. length sel = h \<and> distinct sel \<and> length vals = h \<and> length vs = h \<and> sorted vals
      \<and> (\<forall>p<h. sel ! p < length e0 \<and> \<bar>vals ! p\<bar> \<le> edge
            \<and> vals ! p = np_round (Re (e0 ! (sel ! p))) decimals
            \<and> vs ! p = solver_column v0 (sel ! p))"
proof -
  let ?ev = "map (\<lambda>z. np_round (Re z) decimals) e0"
  let ?order = "argsort ?ev"
  let ?S = "map (\<lambda>i. ?ev ! i) ?order" and ?V = "map (\<lambda>i. np_transpose v0 ! i) ?order"
  from first_brillouin_zone_result [OF fbz] obtain a where
    a: "a + h \<le> length ?ev" "searchsorted_left ?S (- edge) \<le> a"
      "a + h \<le> searchsorted_right ?S edge"
      "vals = take h (drop a ?S)" "vs = take h (drop a ?V)"
      "\<not> list_ex (\<lambda>i. length (np_transpose v0) \<le> i) ?order"
    by blast
  define sel where "sel = take h (drop a ?order)"
  have lo: "length ?order = length e0" by (simp add: argsort_props)
  from a(1) have ah: "a + h \<le> length e0" by simp
  have len: "length sel = h" using ah by (simp add: sel_def lo)
  have dist: "distinct sel" unfolding sel_def by (intro distinct_take distinct_drop argsort_props)
  have lv: "length vals = h" "length vs = h" using ah by (simp_all add: a(4,5) lo)
  have sorted_S: "sorted ?S" by (rule argsort_props)
  have srt: "sorted vals" unfolding a(4) by (intro sorted_wrt_take sorted_wrt_drop sorted_S)
  have each: "sel ! p < length e0 \<and> \<bar>vals ! p\<bar> \<le> edge
            \<and> vals ! p = np_round (Re (e0 ! (sel ! p))) decimals
            \<and> vs ! p = solver_column v0 (sel ! p)" if p: "p < h" for p
  proof -
    from p ah have ap: "a + p < length ?order" by (simp add: lo)
    have sp: "sel ! p = ?order ! (a + p)" using p ap by (simp add: sel_def)
    have "?order ! (a + p) \<in> set ?order" using ap by (rule nth_mem)
    then have b1: "sel ! p < length e0" by (simp add: sp argsort_props)
    have vp: "vals ! p = ?S ! (a + p)" using p ap by (simp add: a(4))
    have "- edge \<le> ?S ! (a + p)"
      using sorted_S a(2) ap by (intro searchsorted_left_above) simp_all
    moreover have "?S ! (a + p) \<le> edge"
      using a(3) p by (intro searchsorted_right_below) simp
    ultimately have b2: "\<bar>vals ! p\<bar> \<le> edge" by (simp add: vp abs_le_iff)
    have "?S ! (a + p) = ?ev ! (sel ! p)" using ap by (simp add: sp)
    with b1 have b3: "vals ! p = np_round (Re (e0 ! (sel ! p))) decimals" by (simp add: vp)
    from a(6) have "\<forall>i\<in>set ?order. i < shape1 v0"
      by (auto simp: list_ex_iff length_np_transpose not_le)
    with \<open>?order ! (a + p) \<in> set ?order\<close> have "sel ! p < shape1 v0" by (simp add: sp)
    then have "np_transpose v0 ! (sel ! p) = solver_column v0 (sel ! p)" by (rule np_transpose_nth)
    moreover have "vs ! p = np_transpose v0 ! (sel ! p)" using p ap by (simp add: a(5) sp)
    ultimately have b4: "vs ! p = solver_column v0 (sel ! p)" by simp
    from b1 b2 b3 b4 show ?thesis by simp
  qed
  from len dist lv srt each show ?thesis by blast
qed

lemma orthogonalise_rows:
  assumes gs: "gs_keeps_shape gs" and srt: "sorted vals" and len: "length vs = length vals"
    and wide: "\<forall>p<length vals. length (vs ! p) = L"
    and orth: "orthogonalise gs vals vs = Inr rows"
  shows "length rows = length vals"
    and "\<forall>r\<in>set rows. length r = L"
    and "\<forall>p<length vals. (\<forall>q<length vals. q \<noteq> p \<longrightarrow> vals ! q \<noteq> vals ! p) \<longrightarrow> rows ! p = vs ! p"
    and "\<forall>a b p. maximal_run vals a b \<and> a + 2 \<le> b \<and> a \<le> p \<and> p < b \<longrightarrow>
           rows ! p = gs (map (\<lambda>q. vs ! q) [a..<b]) ! (p - a)"
proof -
  let ?G = "find_duplicates vals"
  have G1: "sorted_wrt (\<lambda>g h. \<forall>x\<in>set g. \<forall>y\<in>set h. x < y) ?G"
    by (rule find_duplicates_ascending [OF srt])
  have Gset: "set ?G = {[a..<b] |a b. maximal_run vals a b \<and> a + 2 \<le> b}"
    by (rule find_duplicates_set [OF srt])
  have run: "b \<le> length vals" if "maximal_run vals a b" for a b
    using that unfolding maximal_run_def by simp
  have G2: "\<forall>g\<in>set ?G. distinct g \<and> (\<forall>i\<in>set g. i < length vs)"
  proof
    fix g assume "g \<in> set ?G"
    with Gset obtain a b where "g = [a..<b]" "maximal_run vals a b" by blast
    with run [of a b] len show "distinct g \<and> (\<forall>i\<in>set g. i < length vs)" by simp
  qed
  from orthogonalise_groups [OF gs G1 G2] orth obtain R where
    R: "rows = R" "length R = length vs"
      "\<forall>q. (\<forall>g\<in>set ?G. q \<notin> set g) \<longrightarrow> R ! q = vs ! q"
      "\<forall>g\<in>set ?G. \<forall>k<length g. R ! (g ! k) = gs (fancy_get vs g) ! k"
    unfolding orthogonalise_def by auto
  show l: "length rows = length vals" using R(1,2) len by simp
  have grp: "rows ! p = gs (map (\<lambda>q. vs ! q) [a..<b]) ! (p - a)"
    if r: "maximal_run vals a b" "a + 2 \<le> b" "a \<le> p" "p < b" for a b p
  proof -
    from r(1,2) Gset have "[a..<b] \<in> set ?G" by blast
    moreover from r(3,4) have "p - a < length [a..<b]" by simp
    ultimately have "R ! ([a..<b] ! (p - a)) = gs (fancy_get vs [a..<b]) ! (p - a)"
      using R(4) by blast
    moreover from r(3,4) have "[a..<b] ! (p - a) = p" by simp
    ultimately show ?thesis by (simp add: R(1) fancy_get_def)
  qed
  then show "\<forall>a b p. maximal_run vals a b \<and> a + 2 \<le> b \<and> a \<le> p \<and> p < b \<longrightarrow>
           rows ! p = gs (map (\<lambda>q. vs ! q) [a..<b]) ! (p - a)" by blast
  have single: "rows ! p = vs ! p" if "\<forall>g\<in>set ?G. p \<notin> set g" for p
    using R(3) that by (simp add: R(1))
  show "\<forall>p<length vals. (\<forall>q<length vals. q \<noteq> p \<longrightarrow> vals ! q \<noteq> vals ! p) \<longrightarrow> rows ! p = vs ! p"
  proof (intro allI impI)
    fix p assume p: "p < length vals" and u: "\<forall>q<length vals. q \<noteq> p \<longrightarrow> vals ! q \<noteq> vals ! p"
    have "\<forall>g\<in>set ?G. p \<notin> set g"
    proof (intro ballI notI)
      fix g assume "g \<in> set ?G" "p \<in> set g"
      from find_duplicates_repeated [OF srt this] u show False by blast
    qed
    then show "rows ! p = vs ! p" by (rule single)
  qed
  show "\<forall>r\<in>set rows. length r = L"
  proof
    fix r assume "r \<in> set rows"
    then obtain p where p: "p < length vals" "r = rows ! p"
      using l by (auto simp: in_set_conv_nth)
    show "length r = L"
    proof (cases "\<forall>g\<in>set ?G. p \<notin> set g")
      case True
      then show ?thesis using single [of p] wide p by simp
    next
      case False
      then obtain a b where ab: "maximal_run vals a b" "a + 2 \<le> b" "a \<le> p" "p < b"
        using Gset by auto
      let ?m = "map (\<lambda>q. vs ! q) [a..<b]"
      from run [OF ab(1)] have b: "b \<le> length vals" .
      from ab(2) have "[a..<b] = a # [Suc a..<b]" by (simp add: upt_rec)
      then have "shape1 ?m = length (vs ! a)" by (simp add: shape1_def)
      also have "\<dots> = L" using wide ab(2) b by simp
      finally have w: "shape1 ?m = L" .
      have "list_all (\<lambda>r. length r = shape1 ?m) ?m"
        unfolding w using wide b by (simp add: list_all_iff)
      with gs have "list_all (\<lambda>r. length r = L) (gs ?m)" and "length (gs ?m) = length ?m"
        unfolding gs_keeps_shape_def w [symmetric] by blast+
      moreover from ab(3,4) have "p - a < length ?m" by simp
      ultimately have "length (gs ?m ! (p - a)) = L" by (simp add: list_all_length)
      with grp [OF ab] p(2) show ?thesis by simp
    qed
  qed
qed

text \<open>
  C3. Whenever \<open>diagonalise\<close> returns, it returns exactly \<open>h\<close> eigenvalues, sorted
  ascending, each of absolute value at most the rounded half frequency, and \<open>h\<close>
  eigenvectors. They are the rounded real parts of \<open>h\<close> different eigenvalues of the solver,
  and (when Gram-Schmidt returns an array of the shape of its argument) the eigenvector at the
  index of an eigenvalue that occurs once is the solver's column for that eigenvalue, and the
  eigenvectors at the indices of a maximal run of equal eigenvalues are the rows that
  Gram-Schmidt returns for the solver's columns of that run.
\<close>

theorem diagonalise_first_zone:
  assumes "diagonalise eig eigs gs k h freq decimals = Inr (vals, vecs)"
  shows "length vals = h \<and> length vecs = h \<and> sorted vals
    \<and> (\<forall>p<h. \<bar>vals ! p\<bar> \<le> np_round (0.5 * freq) decimals)
    \<and> (\<exists>eigenvalues0 eigenvectors0 sel.
         (case k of Sparse m \<Rightarrow> eigs m (2 * h) | Dense m \<Rightarrow> eig m) = Inr (eigenvalues0, eigenvectors0)
         \<and> length sel = h \<and> distinct sel
         \<and> (\<forall>p<h. sel ! p < length eigenvalues0
              \<and> vals ! p = np_round (Re (eigenvalues0 ! (sel ! p))) decimals)
         \<and> (gs_keeps_shape gs \<longrightarrow>
             (\<forall>p<h. (\<forall>q<h. q \<noteq> p \<longrightarrow> vals ! q \<noteq> vals ! p) \<longrightarrow>
                     concat (vecs ! p) = solver_column eigenvectors0 (sel ! p))
           \<and> (\<forall>a b p. maximal_run vals a b \<and> a + 2 \<le> b \<and> a \<le> p \<and> p < b \<longrightarrow>
                     concat (vecs ! p)
                       = gs (map (\<lambda>q. solver_column eigenvectors0 (sel ! q)) [a..<b]) ! (p - a))))"
proof -
  let ?edge = "np_round (0.5 * freq) decimals"
  from diagonalise_parts [OF assms] obtain e0 v0 vs rows where
    solver: "(case k of Sparse m \<Rightarrow> eigs m (2 * h) | Dense m \<Rightarrow> eig m) = Inr (e0, v0)"
    and fbz: "first_brillouin_zone (map (\<lambda>z. np_round (Re z) decimals) e0)
         (np_transpose v0) h ?edge = Inr (vals, vs)"
    and orth: "orthogonalise gs vals vs = Inr rows"
    and h: "0 < h"
    and resh: "reshape3 (concat rows) h (kshape0 k div h) h = Inr vecs"
    by blast
  from diagonalise_values [OF fbz] obtain sel where
    sel: "length sel = h" "distinct sel" "length vals = h" "length vs = h" "sorted vals"
      "\<forall>p<h. sel ! p < length e0 \<and> \<bar>vals ! p\<bar> \<le> ?edge
            \<and> vals ! p = np_round (Re (e0 ! (sel ! p))) decimals
            \<and> vs ! p = solver_column v0 (sel ! p)"
    by blast
  have lvecs: "length vecs = h" by (rule diagonalise_shape(2) [OF assms])
  have vectors: "(\<forall>p<h. (\<forall>q<h. q \<noteq> p \<longrightarrow> vals ! q \<noteq> vals ! p) \<longrightarrow>
                     concat (vecs ! p) = solver_column v0 (sel ! p))
           \<and> (\<forall>a b p. maximal_run vals a b \<and> a + 2 \<le> b \<and> a \<le> p \<and> p < b \<longrightarrow>
                     concat (vecs ! p)
                       = gs (map (\<lambda>q. solver_column v0 (sel ! q)) [a..<b]) ! (p - a))"
    if gs: "gs_keeps_shape gs"
  proof -
    have wide: "\<forall>p<length vals. length (vs ! p) = length v0"
      using sel(3,6) by (simp add: solver_column_def)
    have len: "length vs = length vals" using sel(3,4) by simp
    note o = orthogonalise_rows [OF gs sel(5) len wide orth]
    have flat: "concat (vecs ! p) = rows ! p" if "p < h" for p
      using resh _ o(2) h that by (rule reshape3_rows) (simp add: o(1) sel(3))
    have one: "concat (vecs ! p) = solver_column v0 (sel ! p)"
      if "p < h" "\<forall>q<h. q \<noteq> p \<longrightarrow> vals ! q \<noteq> vals ! p" for p
    proof -
      from o(3) that sel(3) have "rows ! p = vs ! p" by simp
      with flat [OF that(1)] sel(6) that(1) show ?thesis by simp
    qed
    have grp: "concat (vecs ! p) = gs (map (\<lambda>q. solver_column v0 (sel ! q)) [a..<b]) ! (p - a)"
      if r: "maximal_run vals a b \<and> a + 2 \<le> b \<and> a \<le> p \<and> p < b" for a b p
    proof -
      from r have b: "b \<le> h" unfolding maximal_run_def using sel(3) by simp
      with r have p: "p < h" by simp
      from o(4) r have "rows ! p = gs (map (\<lambda>q. vs ! q) [a..<b]) ! (p - a)" by blast
      moreover have "map (\<lambda>q. vs ! q) [a..<b] = map (\<lambda>q. solver_column v0 (sel ! q)) [a..<b]"
        using sel(6) b by simp
      ultimately show ?thesis using flat [OF p] by simp
    qed
    from one grp show ?thesis by blast
  qed
  have bounds: "\<forall>p<h. \<bar>vals ! p\<bar> \<le> ?edge" using sel(6) by blast
  have idx: "\<forall>p<h. sel ! p < length e0 \<and> vals ! p = np_round (Re (e0 ! (sel ! p))) decimals"
    using sel(6) by blast
  from solver sel(1,2) idx vectors
  have "\<exists>eigenvalues0 eigenvectors0 sel.
         (case k of Sparse m \<Rightarrow> eigs m (2 * h) | Dense m \<Rightarrow> eig m) = Inr (eigenvalues0, eigenvectors0)
         \<and> length sel = h \<and> distinct sel
         \<and> (\<forall>p<h. sel ! p < length eigenvalues0
              \<and> vals ! p = np_round (Re (eigenvalues0 ! (sel ! p))) decimals)
         \<and> (gs_keeps_shape gs \<longrightarrow>
             (\<forall>p<h. (\<forall>q<h. q \<noteq> p \<longrightarrow> vals ! q \<noteq> vals ! p) \<longrightarrow>
                     concat (vecs ! p) = solver_column eigenvectors0 (sel ! p))
           \<and> (\<forall>a b p. maximal_run vals a b \<and> a + 2 \<le> b \<and> a \<le> p \<and> p < b \<longrightarrow>
                     concat (vecs ! p)
                       = gs (map (\<lambda>q. solver_column eigenvectors0 (sel ! q)) [a..<b]) ! (p - a)))"
    by (intro exI [of _ e0] exI [of _ v0] exI [of _ sel]) simp
  with sel(3,5) lvecs bounds show ?thesis by simp
qed


lemma diagonalise_unit:
  "diagonalise unit_solver no_sparse_solver id (Dense [[1 / 4]]) 1 1 8 = Inr ([1 / 4], [[[1]]])"
  by code_simp

lemma diagonalise_pair:
  "diagonalise diagonal_solver no_sparse_solver id (Dense [[1 / 4, 0], [0, 1 / 4]]) 2 1 8
     = Inr ([1 / 4, 1 / 4], [[[1, 0]], [[0, 1]]])"
  by code_simp

lemma diagonal_solver_pair:
  "diagonal_solver [[1 / 4, 0], [0, 1 / 4]] = Inr ([1 / 4, 1 / 4], [[1, 0], [0, 1]])"
  by code_simp

lemma gs_keeps_shape_id: "gs_keeps_shape id"
  by (simp add: gs_keeps_shape_def)

lemma maximal_run_pair: "maximal_run [1 / 4, 1 / 4] 0 2"
  by (auto simp: maximal_run_def less_2_cases_iff)

theorem diagonalise_first_zone_witness:
  "diagonalise unit_solver no_sparse_solver id (Dense [[1 / 4]]) 1 1 8 = Inr ([1 / 4], [[[1]]])
   \<and> gs_keeps_shape id
   \<and> \<bar>[1 / 4 :: real] ! 0\<bar> \<le> np_round (0.5 * 1) 8
   \<and> concat ([[[1 :: complex]]] ! 0) = solver_column [[1]] 0
   \<and> diagonalise diagonal_solver no_sparse_solver id (Dense [[1 / 4, 0], [0, 1 / 4]]) 2 1 8
        = Inr ([1 / 4, 1 / 4], [[[1, 0]], [[0, 1]]])
   \<and> maximal_run [1 / 4, 1 / 4] 0 2
   \<and> (\<exists>sel. length sel = 2 \<and> distinct sel \<and> sel ! 0 < 2 \<and> sel ! 1 < 2
         \<and> concat ([[[1 :: complex, 0]], [[0, 1]]] ! 0) = solver_column [[1, 0], [0, 1]] (sel ! 0)
         \<and> concat ([[[1 :: complex, 0]], [[0, 1]]] ! 1) = solver_column [[1, 0], [0, 1]] (sel ! 1))"
proof -
  note u = diagonalise_first_zone [OF diagonalise_unit]
  note d = diagonalise_first_zone [OF diagonalise_pair]
  from u have b: "\<bar>[1 / 4 :: real] ! 0\<bar> \<le> np_round (0.5 * 1) 8" by simp
  from u obtain e0 v0 sel where
    s: "unit_solver [[1 / 4]] = Inr (e0, v0)" "sel ! 0 < length e0"
      "(\<forall>q<1. q \<noteq> (0::nat) \<longrightarrow> [1 / 4 :: real] ! q \<noteq> [1 / 4] ! 0) \<longrightarrow>
         concat ([[[1 :: complex]]] ! 0) = solver_column v0 (sel ! 0)"
    using gs_keeps_shape_id by auto
  from s(1) have "e0 = [1 / 4]" "v0 = [[1]]" by (simp_all add: unit_solver_def)
  with s(2,3) have c: "concat ([[[1 :: complex]]] ! 0) = solver_column [[1]] 0" by simp
  have two: "[0..<2] = [0, Suc 0]" by code_simp
  from d obtain e1 v1 sel1 where
    t: "diagonal_solver [[1 / 4, 0], [0, 1 / 4]] = Inr (e1, v1)"
      "length sel1 = 2" "distinct sel1" "\<forall>p<2. sel1 ! p < length e1"
      "\<forall>a b p. maximal_run [1 / 4, 1 / 4] a b \<and> a + 2 \<le> b \<and> a \<le> p \<and> p < b \<longrightarrow>
         concat ([[[1 :: complex, 0]], [[0, 1]]] ! p)
           = id (map (\<lambda>q. solver_column v1 (sel1 ! q)) [a..<b]) ! (p - a)"
    using gs_keeps_shape_id by auto
  from t(1) have v1: "e1 = [1 / 4, 1 / 4]" "v1 = [[1, 0], [0, 1]]"
    by (simp_all add: diagonal_solver_pair)
  have "(0::nat) < 2" "(1::nat) < 2" by simp_all
  with t(4) have "sel1 ! 0 < length e1" "sel1 ! 1 < length e1" by blast+
  then have i: "sel1 ! 0 < 2" "sel1 ! 1 < 2" by (simp_all add: v1)
  have "maximal_run [1 / 4, 1 / 4] 0 2 \<and> 0 + 2 \<le> (2::nat) \<and> (0::nat) \<le> 0 \<and> (0::nat) < 2"
    and "maximal_run [1 / 4, 1 / 4] 0 2 \<and> 0 + 2 \<le> (2::nat) \<and> (0::nat) \<le> 1 \<and> (1::nat) < 2"
    using maximal_run_pair by simp_all
  then have "concat ([[[1 :: complex, 0]], [[0, 1]]] ! 0)
           = id (map (\<lambda>q. solver_column v1 (sel1 ! q)) [0..<2]) ! (0 - 0)"
    and "concat ([[[1 :: complex, 0]], [[0, 1]]] ! 1)
           = id (map (\<lambda>q. solver_column v1 (sel1 ! q)) [0..<2]) ! (1 - 0)"
    using t(5) by blast+
  then have g: "concat ([[[1 :: complex, 0]], [[0, 1]]] ! 0) = solver_column [[1, 0], [0, 1]] (sel1 ! 0)"
    "concat ([[[1 :: complex, 0]], [[0, 1]]] ! 1) = solver_column [[1, 0], [0, 1]] (sel1 ! 1)"
    unfolding two v1 by simp_all
  from t(2,3) i g have "\<exists>sel. length sel = 2 \<and> distinct sel \<and> sel ! 0 < 2 \<and> sel ! 1 < 2
         \<and> concat ([[[1 :: complex, 0]], [[0, 1]]] ! 0) = solver_column [[1, 0], [0, 1]] (sel ! 0)
         \<and> concat ([[[1 :: complex, 0]], [[0, 1]]] ! 1) = solver_column [[1, 0], [0, 1]] (sel ! 1)"
    by blast
  with diagonalise_unit gs_keeps_shape_id b c diagonalise_pair maximal_run_pair
  show ?thesis by simp
qed

end
